theory Spec2Isabelle
  imports Complex_Main "HOL-Library.Multiset" "HOL-Library.List_Lexorder" "HOL-Library.Char_ord"
begin

section \<open>Data model (types.ts)\<close>

text \<open>
  Strings are lists of code units; one \<open>char\<close> stands for one code unit of the
  source's string type, so \<open>length\<close> is the source's \<open>.length\<close>. Numbers that the
  source uses as indices, counts and weights are integers.
\<close>

datatype ErrorSeverity = CRITICAL | ERROR | WARNING

record LogRule =
  id_rule :: string
  name :: string
  regex :: string
  keywords_rule :: "string list"
  solution :: string
  severity :: ErrorSeverity
  weight :: int

record AnalyzedIssue =
  ruleId :: string
  ruleName :: string
  severity_i :: ErrorSeverity
  solution_i :: string
  matchContent :: string
  lineNumber :: nat
  context_i :: "string list"

record AnalysisReport =
  fileName :: string
  totalLines :: nat
  timestamp :: string
  issues :: "AnalyzedIssue list"
  durationMs :: int

text \<open>
  The compiled rule of \<open>analyzeLog\<close>: the rule's own fields (\<open>...r\<close>) together with
  the compiled pattern and the multiline flag. The compiled pattern is used through
  \<open>exec\<close> only, and has no global flag, so it carries no position between calls: it is
  the function from a text to \<open>match[0]\<close>, \<open>None\<close> when \<open>exec\<close> returns null.
\<close>

record CompiledRule = LogRule +
  regExp :: "string \<Rightarrow> string option"
  isMultiline :: bool

text \<open>
  The host's pattern constructor \<open>new RegExp(source, 'i')\<close> is not code of the
  repository; it is a parameter of the model. \<open>Inl e\<close> is the error it throws on a
  pattern it rejects, \<open>Inr re\<close> the compiled pattern.
\<close>

type_synonym RegExpCtor = "string \<Rightarrow> string + (string \<Rightarrow> string option)"

section \<open>String and array primitives of the host\<close>

abbreviation LF :: char where "LF \<equiv> CHR 0x0A"
abbreviation CR :: char where "CR \<equiv> CHR 0x0D"
abbreviation BSL :: char where "BSL \<equiv> CHR 0x5C"

fun startsWith :: "string \<Rightarrow> string \<Rightarrow> bool" where
  "startsWith s [] = True"
| "startsWith [] (k # ks) = False"
| "startsWith (c # cs) (k # ks) = (c = k \<and> startsWith cs ks)"

text \<open>\<open>s.includes(k)\<close>: \<open>k\<close> occurs in \<open>s\<close> as a contiguous run, compared exactly.\<close>

fun includes_str :: "string \<Rightarrow> string \<Rightarrow> bool" where
  "includes_str [] k = (k = [])"
| "includes_str (c # cs) k = (startsWith (c # cs) k \<or> includes_str cs k)"

text \<open>
  \<open>fileContent.split(/\r?\n/)\<close>: a line feed, with the carriage return right before
  it when there is one, separates two lines; a carriage return alone stays in its line.
  The empty text gives one empty line.
\<close>

fun consHead :: "char \<Rightarrow> string list \<Rightarrow> string list" where
  "consHead c [] = [[c]]"
| "consHead c (l # ls) = (c # l) # ls"

fun splitLines :: "string \<Rightarrow> string list" where
  "splitLines [] = [[]]"
| "splitLines [c] = (if c = LF then [[], []] else [[c]])"
| "splitLines (c # d # cs) =
     (if c = CR \<and> d = LF then [] # splitLines cs
      else if c = LF then [] # splitLines (d # cs)
      else consHead c (splitLines (d # cs)))"

text \<open>\<open>xs.slice(s, e)\<close>, with the host's treatment of negative and too large bounds.\<close>

definition slice :: "'a list \<Rightarrow> int \<Rightarrow> int \<Rightarrow> 'a list" where
  "slice xs s e =
     (let len = int (length xs);
          k = (if s < 0 then max (len + s) 0 else min s len);
          fin = (if e < 0 then max (len + e) 0 else min e len)
      in take (nat (fin - k)) (drop (nat k) xs))"

text \<open>\<open>xs.join(sep)\<close>.\<close>

fun join :: "string list \<Rightarrow> string \<Rightarrow> string" where
  "join [] sep = []"
| "join [x] sep = x"
| "join (x # y # ys) sep = x @ sep @ join (y # ys) sep"

text \<open>\<open>s.trim()\<close>: the white space and line terminators among the code units below 256.\<close>

definition isWhiteSpace :: "char \<Rightarrow> bool" where
  "isWhiteSpace c = (c = CHR 0x09 \<or> c = LF \<or> c = CHR 0x0B \<or> c = CHR 0x0C \<or> c = CR
     \<or> c = CHR 0x20 \<or> c = CHR 0xA0)"

definition trim :: "string \<Rightarrow> string" where
  "trim s = rev (dropWhile isWhiteSpace (rev (dropWhile isWhiteSpace s)))"

text \<open>\<open>s.split('\n')[0]\<close>: the text before the first line feed.\<close>

definition firstLine :: "string \<Rightarrow> string" where
  "firstLine s = takeWhile (\<lambda>c. c \<noteq> LF) s"

text \<open>
  \<open>xs.sort(cmp)\<close>: the host's sort is stable; for a comparator that orders the
  elements consistently its result is the one that stable insertion gives. An element
  goes before the first one it does not compare greater than.
\<close>

fun insertBy :: "('a \<Rightarrow> 'a \<Rightarrow> int) \<Rightarrow> 'a \<Rightarrow> 'a list \<Rightarrow> 'a list" where
  "insertBy cmp x [] = [x]"
| "insertBy cmp x (y # ys) = (if cmp x y \<le> 0 then x # y # ys else y # insertBy cmp x ys)"

definition arraySort :: "('a \<Rightarrow> 'a \<Rightarrow> int) \<Rightarrow> 'a list \<Rightarrow> 'a list" where
  "arraySort cmp xs = foldr (insertBy cmp) xs []"

text \<open>\<open>Math.round\<close>: the nearest integer, a half going up.\<close>

definition mathRound :: "real \<Rightarrow> int" where
  "mathRound x = \<lfloor>x + 1 / 2\<rfloor>"

section \<open>The analysis engine (analyzeLog)\<close>

text \<open>
  \<open>r.regex.replace(/\(\?P<[^>]+>/g, '(')\<close>: every \<open>(?P<\<close> that is followed by at
  least one code unit other than \<open>>\<close> and then by \<open>>\<close> is replaced, up to and
  including that \<open>>\<close>, by an opening parenthesis; the search goes on after it.
\<close>

function sanitize :: "string \<Rightarrow> string" where
  "sanitize [] = []"
| "sanitize (c # cs) =
     (if startsWith (c # cs) ''(?P<'' then
        (let rest = drop 4 (c # cs);
             nm = takeWhile (\<lambda>x. x \<noteq> CHR ''>'') rest;
             after = dropWhile (\<lambda>x. x \<noteq> CHR ''>'') rest
         in if nm \<noteq> [] \<and> after \<noteq> [] then CHR ''('' # sanitize (tl after)
            else c # sanitize cs)
      else c # sanitize cs)"
  by pat_completeness auto
termination
proof (relation "measure length")
  show "wf (measure length)" by simp
next
  fix c :: char and cs rest nm after :: string
  assume a: "rest = drop 4 (c # cs)" "after = dropWhile (\<lambda>x. x \<noteq> CHR ''>'') rest"
    and ne: "nm \<noteq> [] \<and> after \<noteq> []"
  have "length after \<le> length rest"
    unfolding a by (rule length_dropWhile_le)
  moreover have "length rest \<le> length (c # cs)"
    unfolding a by simp
  moreover have "length (tl after) < length after"
    using ne by (cases after) auto
  ultimately show "(tl after, c # cs) \<in> measure length"
    by simp
qed simp_all

text \<open>
  The pre-compilation of the rules: \<open>rules.map(...)\<close> with its \<open>try\<close>/\<open>catch\<close>,
  followed by \<open>.filter(r => r !== null)\<close>. A rule whose pattern the constructor
  rejects is reported with \<open>console.error\<close> (the message and the error) and dropped;
  the console is the list of what was reported, in order.
\<close>

definition invalidRegexMessage :: "LogRule \<Rightarrow> string" where
  "invalidRegexMessage r = ''Invalid Regex for rule '' @ name r @ '': '' @ regex r"

definition compileRule :: "RegExpCtor \<Rightarrow> LogRule \<Rightarrow> (string \<times> string) + CompiledRule" where
  "compileRule mk r =
     (let safeRegex = sanitize (regex r);
          multi = (includes_str safeRegex [BSL, CHR ''n''] \<or> includes_str safeRegex [LF])
      in case mk safeRegex of
           Inr re \<Rightarrow> Inr (LogRule.extend r \<lparr>regExp = re, isMultiline = multi\<rparr>)
         | Inl e \<Rightarrow> Inl (invalidRegexMessage r, e))"

fun compileRules ::
  "RegExpCtor \<Rightarrow> LogRule list \<Rightarrow> (string \<times> string) list
     \<Rightarrow> CompiledRule list \<times> (string \<times> string) list" where
  "compileRules mk [] console = ([], console)"
| "compileRules mk (r # rs) console =
     (case compileRule mk r of
        Inl err \<Rightarrow> compileRules mk rs (console @ [err])
      | Inr cr \<Rightarrow> (case compileRules mk rs console of (crs, console') \<Rightarrow> (cr # crs, console')))"

text \<open>The keyword filter of one rule on the current line.\<close>

definition hasKeyword :: "CompiledRule \<Rightarrow> string \<Rightarrow> bool" where
  "hasKeyword rule line = list_ex (\<lambda>k. includes_str line k) (keywords_rule rule)"

definition passesKeywordFilter :: "CompiledRule \<Rightarrow> string \<Rightarrow> bool" where
  "passesKeywordFilter rule line = (keywords_rule rule = [] \<or> hasKeyword rule line)"

text \<open>
  The pattern evaluation of one rule at line \<open>i\<close>: on the window of the next ten lines
  for a multiline rule, on the line itself otherwise.
\<close>

definition contextWindow :: "string list \<Rightarrow> nat \<Rightarrow> string" where
  "contextWindow lines i = join (slice lines (int i) (int i + 10)) [LF]"

definition execRule :: "CompiledRule \<Rightarrow> string list \<Rightarrow> nat \<Rightarrow> string option" where
  "execRule rule lines i =
     (if isMultiline rule then regExp rule (contextWindow lines i)
      else regExp rule (lines ! i))"

definition CONTEXT_LINES :: int where
  "CONTEXT_LINES = 3"

definition extractContext :: "string list \<Rightarrow> nat \<Rightarrow> string list" where
  "extractContext lines i =
     (let start = max 0 (int i - CONTEXT_LINES);
          fin = min (int (length lines)) (int i + CONTEXT_LINES + 1)
      in slice lines start fin)"

definition makeIssue :: "CompiledRule \<Rightarrow> string list \<Rightarrow> nat \<Rightarrow> string \<Rightarrow> AnalyzedIssue" where
  "makeIssue rule lines i m =
     \<lparr>ruleId = id_rule rule, ruleName = name rule, severity_i = severity rule,
      solution_i = solution rule,
      matchContent = (if isMultiline rule then firstLine m @ ''...'' else trim (lines ! i)),
      lineNumber = i + 1,
      context_i = extractContext lines i\<rparr>"

text \<open>
  The inner loop over the compiled rules at line \<open>i\<close>: \<open>continue\<close> on a failed keyword
  filter or a failed pattern, \<open>break\<close> with the issue on the first match.
\<close>

fun matchRules :: "CompiledRule list \<Rightarrow> string list \<Rightarrow> nat \<Rightarrow> AnalyzedIssue option" where
  "matchRules [] lines i = None"
| "matchRules (rule # rest) lines i =
     (if \<not> passesKeywordFilter rule (lines ! i) then matchRules rest lines i
      else case execRule rule lines i of
             None \<Rightarrow> matchRules rest lines i
           | Some m \<Rightarrow> Some (makeIssue rule lines i m))"

text \<open>The outer loop over the lines, from index \<open>i\<close> on, pushing onto \<open>issues\<close>.\<close>

function scanLoop ::
  "CompiledRule list \<Rightarrow> string list \<Rightarrow> nat \<Rightarrow> AnalyzedIssue list \<Rightarrow> AnalyzedIssue list" where
  "scanLoop crs lines i acc =
     (if i < length lines then
        (if length (lines ! i) > 2000 then scanLoop crs lines (i + 1) acc
         else case matchRules crs lines i of
                None \<Rightarrow> scanLoop crs lines (i + 1) acc
              | Some iss \<Rightarrow> scanLoop crs lines (i + 1) (acc @ [iss]))
      else acc)"
  by pat_completeness auto
termination
  by (relation "measure (\<lambda>(crs, lines, i, acc). length lines - i)") auto

declare scanLoop.simps [simp del]

text \<open>
  What the scan reads from its environment: the stored rules (\<open>getRules()\<close>), the two
  readings of \<open>performance.now()\<close> and the date of the report.
\<close>

record Env =
  getRules :: "LogRule list"
  startTime :: real
  endTime :: real
  isoNow :: string

text \<open>
  What the scan leaves behind: the report it returns, the array it sorted in place
  (\<open>rules\<close> is the caller's own array when \<open>customRules\<close> is given) and what it wrote
  with \<open>console.error\<close>.
\<close>

record Outcome =
  report :: AnalysisReport
  rulesArray :: "LogRule list"
  console :: "(string \<times> string) list"

text \<open>
  The comparator of \<open>rules.sort(...)\<close>. Weights are integers, for which
  \<open>w || 0\<close> is \<open>w\<close>.
\<close>

definition byWeightDesc :: "LogRule \<Rightarrow> LogRule \<Rightarrow> int" where
  "byWeightDesc a b = weight b - weight a"

definition analyzeLog ::
  "RegExpCtor \<Rightarrow> Env \<Rightarrow> string \<Rightarrow> string \<Rightarrow> LogRule list option \<Rightarrow> Outcome" where
  "analyzeLog mk env fileContent fName customRules =
     (let rules0 = (case customRules of Some rs \<Rightarrow> rs | None \<Rightarrow> getRules env);
          rules = arraySort byWeightDesc rules0;
          lines = splitLines fileContent;
          (compiledRules, errs) = compileRules mk rules [];
          found = scanLoop compiledRules lines 0 []
      in \<lparr>report = \<lparr>fileName = fName, totalLines = length lines, timestamp = isoNow env,
                     issues = found, durationMs = mathRound (endTime env - startTime env)\<rparr>,
          rulesArray = rules, console = errs\<rparr>)"

section \<open>The sorting of issue groups (Analyzer.tsx)\<close>

text \<open>
  The comparator of \<open>result.sort(...)\<close> in \<open>groupedIssues\<close>, for the three sort
  orders. \<open>result\<close> is the list of groups as \<open>Object.values\<close> gives them; the
  host's \<open>localeCompare\<close> is a parameter.
\<close>

datatype SortOrder = severity_desc | count_desc | name_asc

record IssueGroup =
  g_ruleId :: string
  g_ruleName :: string
  g_severity :: ErrorSeverity
  g_issues :: "AnalyzedIssue list"

definition getSeverityWeight :: "ErrorSeverity \<Rightarrow> int" where
  "getSeverityWeight sev = (if sev = CRITICAL then 3 else if sev = ERROR then 2 else 1)"

definition compareGroups ::
  "(string \<Rightarrow> string \<Rightarrow> int) \<Rightarrow> SortOrder \<Rightarrow> IssueGroup \<Rightarrow> IssueGroup \<Rightarrow> int" where
  "compareGroups localeCompare sortOrder a b =
     (if sortOrder = severity_desc then
        (let wa = getSeverityWeight (g_severity a);
             wb = getSeverityWeight (g_severity b)
         in if wa \<noteq> wb then wb - wa
            else int (length (g_issues b)) - int (length (g_issues a)))
      else if sortOrder = count_desc then int (length (g_issues b)) - int (length (g_issues a))
      else if sortOrder = name_asc then localeCompare (g_ruleName a) (g_ruleName b)
      else 0)"

definition sortGroups ::
  "(string \<Rightarrow> string \<Rightarrow> int) \<Rightarrow> SortOrder \<Rightarrow> IssueGroup list \<Rightarrow> IssueGroup list" where
  "sortGroups localeCompare sortOrder result = arraySort (compareGroups localeCompare sortOrder) result"

section \<open>Notions used to state the properties\<close>

text \<open>
  What happens at one line of the outer loop, what it means for a compiled rule to fire at
  a line, and for a rule as authored to match a line: its pattern compiles and the
  compiled rule fires.
\<close>

definition scanLine :: "CompiledRule list \<Rightarrow> string list \<Rightarrow> nat \<Rightarrow> AnalyzedIssue option" where
  "scanLine crs lines i = (if length (lines ! i) > 2000 then None else matchRules crs lines i)"

definition fires :: "string list \<Rightarrow> nat \<Rightarrow> CompiledRule \<Rightarrow> bool" where
  "fires lines i cr = (passesKeywordFilter cr (lines ! i) \<and> execRule cr lines i \<noteq> None)"

definition ruleMatches :: "RegExpCtor \<Rightarrow> string list \<Rightarrow> nat \<Rightarrow> LogRule \<Rightarrow> bool" where
  "ruleMatches mk lines i r =
     (case compileRule mk r of Inl err \<Rightarrow> False | Inr cr \<Rightarrow> fires lines i cr)"

definition activeRules :: "Env \<Rightarrow> LogRule list option \<Rightarrow> LogRule list" where
  "activeRules env customRules = (case customRules of Some rs \<Rightarrow> rs | None \<Rightarrow> getRules env)"

text \<open>
  The keyword gate of a rule as authored, on a line: the keyword list is empty, or one of
  the keywords occurs in the line as it is written.
\<close>

definition keywordGate :: "string \<Rightarrow> LogRule \<Rightarrow> bool" where
  "keywordGate line r =
     (keywords_rule r = [] \<or> (\<exists>k\<in>set (keywords_rule r). \<exists>p s. line = p @ k @ s))"

text \<open>
  A comparator orders consistently when any two elements are comparable one way or the
  other and the order it gives is transitive; the host's sort is specified for such
  comparators, and a collation order is one.
\<close>

definition consistentComparator :: "('a \<Rightarrow> 'a \<Rightarrow> int) \<Rightarrow> bool" where
  "consistentComparator cmp =
     ((\<forall>a b. cmp a b \<le> 0 \<or> cmp b a \<le> 0)
      \<and> (\<forall>a b c. cmp a b \<le> 0 \<and> cmp b c \<le> 0 \<longrightarrow> cmp a c \<le> 0))"

section \<open>A concrete pattern constructor for the examples\<close>

text \<open>
  The properties below are proved for every pattern constructor. For concrete runs, this
  one stands in for the host on the patterns the examples use: sequences of literal code
  units below 128, the escape \<open>\n\<close> for a line feed, the dot (any code unit but a line
  terminator) and the dot followed by a star (the longest run of such code units that lets
  the rest of the pattern match). The text is searched for the leftmost match, letters
  compared without regard to case, and \<open>match[0]\<close> is the text matched. Every other
  pattern is rejected here; the host does so with the unbalanced parenthesis of the
  examples, not with patterns in general.
\<close>

datatype atom = Lit char | AnyChar | AnyRun

definition isSyntaxCharacter :: "char \<Rightarrow> bool" where
  "isSyntaxCharacter c = (c \<in> set (BSL # ''^$.*+?()[]{}|''))"

fun parseAtoms :: "string \<Rightarrow> atom list option" where
  "parseAtoms [] = Some []"
| "parseAtoms [c] =
     (if c = CHR ''.'' then Some [AnyChar]
      else if isSyntaxCharacter c \<or> 128 \<le> (of_char c :: nat) then None
      else Some [Lit c])"
| "parseAtoms (c # d # cs) =
     (if c = CHR ''.'' \<and> d = CHR ''*'' then map_option ((#) AnyRun) (parseAtoms cs)
      else if c = BSL \<and> d = CHR ''n'' then map_option ((#) (Lit LF)) (parseAtoms cs)
      else if c = CHR ''.'' then map_option ((#) AnyChar) (parseAtoms (d # cs))
      else if isSyntaxCharacter c \<or> 128 \<le> (of_char c :: nat) then None
      else map_option ((#) (Lit c)) (parseAtoms (d # cs)))"

definition toUpperAscii :: "char \<Rightarrow> char" where
  "toUpperAscii c =
     (let n = (of_char c :: nat) in if 97 \<le> n \<and> n \<le> 122 then char_of (n - 32) else c)"

definition isLineTerminator :: "char \<Rightarrow> bool" where
  "isLineTerminator c = (c = LF \<or> c = CR)"

fun matchAtoms :: "atom list \<Rightarrow> string \<Rightarrow> string option" where
  "matchAtoms [] s = Some []"
| "matchAtoms (Lit c # as) [] = None"
| "matchAtoms (Lit c # as) (d # ds) =
     (if toUpperAscii c = toUpperAscii d then map_option ((#) d) (matchAtoms as ds) else None)"
| "matchAtoms (AnyChar # as) [] = None"
| "matchAtoms (AnyChar # as) (d # ds) =
     (if isLineTerminator d then None else map_option ((#) d) (matchAtoms as ds))"
| "matchAtoms (AnyRun # as) [] = matchAtoms as []"
| "matchAtoms (AnyRun # as) (d # ds) =
     (if isLineTerminator d then matchAtoms as (d # ds)
      else case matchAtoms (AnyRun # as) ds of
             Some m \<Rightarrow> Some (d # m)
           | None \<Rightarrow> matchAtoms as (d # ds))"

fun searchAtoms :: "atom list \<Rightarrow> string \<Rightarrow> string option" where
  "searchAtoms as [] = matchAtoms as []"
| "searchAtoms as (c # cs) =
     (case matchAtoms as (c # cs) of Some m \<Rightarrow> Some m | None \<Rightarrow> searchAtoms as cs)"

definition fragmentRegExp :: RegExpCtor where
  "fragmentRegExp src =
     (case parseAtoms src of
        None \<Rightarrow> Inl (''SyntaxError: Invalid regular expression: /'' @ src @ ''/'')
      | Some as \<Rightarrow> Inr (searchAtoms as))"

section \<open>Example data\<close>

text \<open>Rules, logs and groups for the concrete runs below.\<close>

definition env0 :: Env where
  "env0 = \<lparr>getRules = [], startTime = 0, endTime = 5 / 2, isoNow = ''2024-01-01T00:00:00.000Z''\<rparr>"

definition mkRule :: "string \<Rightarrow> string \<Rightarrow> string list \<Rightarrow> int \<Rightarrow> LogRule" where
  "mkRule i p ks w = \<lparr>id_rule = i, name = ''rule '' @ i, regex = p, keywords_rule = ks,
     solution = '''', severity = ERROR, weight = w\<rparr>"


definition rulesC1 :: "LogRule list" where
  "rulesC1 = [mkRule ''a'' ''failed'' [''failed''] 1, mkRule ''b'' ''build'' [] 5, mkRule ''c'' ''fail'' [] 5]"


definition longLine :: string where
  "longLine = ''failed'' @ replicate 2001 (CHR ''x'')"

definition ruleNext :: LogRule where
  "ruleNext = mkRule ''next'' ([BSL, CHR ''n''] @ ''failed'') [] 1"

definition logLong :: string where
  "logLong = ''ok'' @ [LF] @ longLine"

definition ruleFailed :: LogRule where
  "ruleFailed = mkRule ''7'' ''failed'' [''Failed'', ''failed''] 1"


definition logC6 :: string where
  "logC6 = ''Build failed'' @ [LF] @ ''second line''"

definition ruleTrace :: LogRule where
  "ruleTrace = mkRule ''trace'' (''A'' @ [BSL, CHR ''n''] @ ''B'') [] 1"

definition logC10 :: string where
  "logC10 = ''x'' @ [LF] @ ''A'' @ [LF] @ ''B''"

definition ruleAny :: LogRule where
  "ruleAny = mkRule ''any'' ''.*'' [] 1"

definition ruleBad :: LogRule where
  "ruleBad = mkRule ''bad'' ''(failed'' [] 5"

text \<open>A concrete comparison of names for the examples: by code units, as a dictionary does.\<close>

definition codeUnitCompare :: "string \<Rightarrow> string \<Rightarrow> int" where
  "codeUnitCompare a b = (if a < b then - 1 else if a = b then 0 else 1)"

definition mkGroup :: "string \<Rightarrow> string \<Rightarrow> ErrorSeverity \<Rightarrow> nat \<Rightarrow> IssueGroup" where
  "mkGroup i n sev k =
     \<lparr>g_ruleId = i, g_ruleName = n, g_severity = sev,
      g_issues = map (\<lambda>j. \<lparr>ruleId = i, ruleName = n, severity_i = sev, solution_i = '''',
                             matchContent = n, lineNumber = j + 1, context_i = []\<rparr>) [0..<k]\<rparr>"

definition groupsC9 :: "IssueGroup list" where
  "groupsC9 = [mkGroup ''w'' ''Missing script'' WARNING 9, mkGroup ''e'' ''Shader error'' ERROR 5,
               mkGroup ''c'' ''Build failed'' CRITICAL 1, mkGroup ''x'' ''Asset import'' ERROR 7]"

section \<open>The scan, line by line\<close>

lemma insertBy_insort_key:
  assumes "\<And>x y. (cmp x y \<le> 0) = (f x \<le> f y)"
  shows "insertBy cmp x ys = insort_key f x ys"
  by (induction ys) (simp_all add: assms)

lemma arraySort_sort_key:
  assumes "\<And>x y. (cmp x y \<le> 0) = (f x \<le> f y)"
  shows "arraySort cmp xs = sort_key f xs"
  by (induction xs) (simp_all add: arraySort_def insertBy_insort_key [OF assms])

lemma sortRules_sort_key: "arraySort byWeightDesc rs = sort_key (\<lambda>r. - weight r) rs"
  by (rule arraySort_sort_key) (auto simp: byWeightDesc_def)

lemma filter_Cons_index:
  assumes "filter Q xs = x # rest"
  shows "\<exists>k<length xs. xs ! k = x \<and> Q x \<and> (\<forall>j<k. \<not> Q (xs ! j))"
proof -
  from assms obtain us vs where xs: "xs = us @ x # vs" and us: "\<forall>u\<in>set us. \<not> Q u" and "Q x"
    by (auto simp: filter_eq_Cons_iff)
  have "\<forall>j<length us. \<not> Q (xs ! j)" using us xs by (simp add: nth_append)
  with xs \<open>Q x\<close> show ?thesis
    by (intro exI [of _ "length us"]) simp
qed

lemma find_Some_filter: "find P ys = Some x \<Longrightarrow> \<exists>rest. filter P ys = x # rest"
  by (induction ys) (auto split: if_splits)

lemma filter_Cons_find: "filter P ys = x # rest \<Longrightarrow> find P ys = Some x"
  by (induction ys) (auto split: if_splits)

lemma find_sort_key_first_min:
  assumes "find P (sort_key f xs) = Some x"
  shows "\<exists>k<length xs. xs ! k = x \<and> P x
           \<and> (\<forall>j<length xs. P (xs ! j) \<longrightarrow> f x \<le> f (xs ! j))
           \<and> (\<forall>j<k. P (xs ! j) \<longrightarrow> f x < f (xs ! j))"
proof -
  let ?ms = "filter P xs"
  from assms obtain rest where "filter P (sort_key f xs) = x # rest"
    by (auto dest: find_Some_filter)
  then have hd: "sort_key f ?ms = x # rest"
    by (simp add: filter_sort)
  have "sorted (map f (sort_key f ?ms))" by simp
  then have le_rest: "\<forall>y\<in>set rest. f x \<le> f y"
    unfolding hd by simp
  have "set (sort_key f ?ms) = set ?ms" by simp
  then have set_ms: "set ?ms = insert x (set rest)"
    unfolding hd by simp
  have min: "\<forall>y\<in>set xs. P y \<longrightarrow> f x \<le> f y"
    using le_rest set_ms by auto
  have Px: "P x" using set_ms by auto
  have "filter (\<lambda>y. f y = f x) (sort_key f ?ms) = filter (\<lambda>y. f y = f x) ?ms"
    by (rule sort_key_stable)
  then have "filter (\<lambda>y. P y \<and> f y = f x) xs = x # filter (\<lambda>y. f y = f x) rest"
    unfolding hd by (simp add: conj_commute)
  then obtain k where k: "k < length xs" "xs ! k = x"
      and before: "\<forall>j<k. \<not> (P (xs ! j) \<and> f (xs ! j) = f x)"
    using filter_Cons_index [of "\<lambda>y. P y \<and> f y = f x" xs x] by blast
  have "\<forall>j<k. P (xs ! j) \<longrightarrow> f x < f (xs ! j)"
  proof (intro allI impI)
    fix j assume j: "j < k" and Pj: "P (xs ! j)"
    with k have "xs ! j \<in> set xs" by simp
    with min Pj have "f x \<le> f (xs ! j)" by blast
    moreover from before j Pj have "f (xs ! j) \<noteq> f x" by blast
    ultimately show "f x < f (xs ! j)" by simp
  qed
  moreover have "\<forall>j<length xs. P (xs ! j) \<longrightarrow> f x \<le> f (xs ! j)"
    using min by simp
  ultimately show ?thesis using k Px by blast
qed

lemma scanLoop_eq:
  "scanLoop crs lines i acc = acc @ List.map_filter (scanLine crs lines) [i..<length lines]"
proof (induction crs lines i acc rule: scanLoop.induct)
  case (1 crs lines i acc)
  show ?case
  proof (cases "i < length lines")
    case False
    then show ?thesis by (simp add: scanLoop.simps [of crs lines i acc])
  next
    case True
    then have upt: "[i..<length lines] = i # [i + 1..<length lines]"
      by (simp add: upt_conv_Cons)
    show ?thesis
    proof (cases "length (lines ! i) > 2000")
      case long: True
      with True "1.IH"(1) show ?thesis
        by (simp add: scanLoop.simps [of crs lines i acc] upt scanLine_def)
    next
      case short: False
      show ?thesis
      proof (cases "matchRules crs lines i")
        case None
        with True short "1.IH"(2) show ?thesis
          by (simp add: scanLoop.simps [of crs lines i acc] upt scanLine_def)
      next
        case (Some iss)
        with True short "1.IH"(3) show ?thesis
          by (simp add: scanLoop.simps [of crs lines i acc] upt scanLine_def)
      qed
    qed
  qed
qed

lemma compileRules_eq:
  "compileRules mk rs c =
     (List.map_filter (\<lambda>r. case compileRule mk r of Inl e \<Rightarrow> None | Inr cr \<Rightarrow> Some cr) rs,
      c @ List.map_filter (\<lambda>r. case compileRule mk r of Inl e \<Rightarrow> Some e | Inr cr \<Rightarrow> None) rs)"
  by (induction rs arbitrary: c) (simp_all add: split: sum.splits)

lemma matchRules_find:
  "matchRules crs lines i =
     (case find (fires lines i) crs of None \<Rightarrow> None
      | Some cr \<Rightarrow> Some (makeIssue cr lines i (the (execRule cr lines i))))"
  by (induction crs) (auto simp: fires_def split: option.splits)

lemma find_compiled:
  "find (fires lines i) (fst (compileRules mk rs c)) =
     (case find (ruleMatches mk lines i) rs of None \<Rightarrow> None
      | Some r \<Rightarrow> (case compileRule mk r of Inl e \<Rightarrow> None | Inr cr \<Rightarrow> Some cr))"
  by (induction rs)
    (auto simp: compileRules_eq ruleMatches_def split: sum.splits option.splits)

lemma compileRule_id: "compileRule mk r = Inr cr \<Longrightarrow> id_rule cr = id_rule r"
  by (auto simp: compileRule_def Let_def LogRule.defs split: sum.splits)

lemma analyzeLog_issues:
  "issues (report (analyzeLog mk env text fn customRules)) =
     List.map_filter
       (scanLine (fst (compileRules mk (arraySort byWeightDesc (activeRules env customRules)) []))
          (splitLines text))
       [0..<length (splitLines text)]"
  by (simp add: analyzeLog_def Let_def scanLoop_eq activeRules_def split: prod.splits)

lemma scanLine_lineNumber: "scanLine crs lines i = Some iss \<Longrightarrow> lineNumber iss = i + 1"
  by (auto simp: scanLine_def matchRules_find makeIssue_def split: if_splits option.splits)

lemma filter_lineNumber_map_filter:
  "filter (\<lambda>x. lineNumber x = i + 1) (List.map_filter (scanLine crs lines) [a..<b]) =
     (if a \<le> i \<and> i < b then (case scanLine crs lines i of None \<Rightarrow> [] | Some x \<Rightarrow> [x]) else [])"
proof (induction b)
  case 0
  then show ?case by (simp add:)
next
  case (Suc b)
  show ?case
  proof (cases "a \<le> b")
    case False
    then show ?thesis by (auto simp:)
  next
    case True
    then have "[a..<Suc b] = [a..<b] @ [b]" by simp
    then have split: "List.map_filter (scanLine crs lines) [a..<Suc b] =
        List.map_filter (scanLine crs lines) [a..<b] @ List.map_filter (scanLine crs lines) [b]"
      by (simp add: List.map_filter_def)
    have last: "filter (\<lambda>x. lineNumber x = i + 1) (List.map_filter (scanLine crs lines) [b]) =
        (if i = b then (case scanLine crs lines i of None \<Rightarrow> [] | Some x \<Rightarrow> [x]) else [])"
      by (auto simp: dest: scanLine_lineNumber split: option.splits)
    have "i < Suc b \<longleftrightarrow> i < b \<or> i = b" by auto
    then show ?thesis
      unfolding split filter_append Suc last using True by auto
  qed
qed

lemma winner_of_line:
  assumes i: "i < length lines" and len: "length (lines ! i) \<le> 2000"
    and j: "j < length rules" and mj: "ruleMatches mk lines i (rules ! j)"
  shows "\<exists>k cr m. k < length rules \<and> ruleMatches mk lines i (rules ! k)
      \<and> (\<forall>m<length rules. ruleMatches mk lines i (rules ! m) \<longrightarrow> weight (rules ! m) \<le> weight (rules ! k))
      \<and> (\<forall>m<k. ruleMatches mk lines i (rules ! m) \<longrightarrow> weight (rules ! m) < weight (rules ! k))
      \<and> compileRule mk (rules ! k) = Inr cr \<and> execRule cr lines i = Some m
      \<and> scanLine (fst (compileRules mk (arraySort byWeightDesc rules) c)) lines i
           = Some (makeIssue cr lines i m)"
proof -
  let ?P = "ruleMatches mk lines i"
  let ?f = "\<lambda>r. - weight r"
  let ?sorted = "arraySort byWeightDesc rules"
  have sorted: "?sorted = sort_key ?f rules" by (rule sortRules_sort_key)
  have "rules ! j \<in> set (sort_key ?f rules)" using j by simp
  with mj have "find ?P (sort_key ?f rules) \<noteq> None"
    by (auto simp: find_None_iff)
  then obtain r where r: "find ?P (sort_key ?f rules) = Some r" by auto
  from find_sort_key_first_min [OF r] obtain k where k: "k < length rules" "rules ! k = r" "?P r"
      and top: "\<forall>m<length rules. ?P (rules ! m) \<longrightarrow> ?f r \<le> ?f (rules ! m)"
      and first: "\<forall>m<k. ?P (rules ! m) \<longrightarrow> ?f r < ?f (rules ! m)"
    by blast
  from \<open>?P r\<close> obtain cr where cr: "compileRule mk r = Inr cr" and f: "fires lines i cr"
    by (auto simp: ruleMatches_def split: sum.splits)
  from f obtain m where m: "execRule cr lines i = Some m"
    by (auto simp: fires_def)
  have "find (fires lines i) (fst (compileRules mk ?sorted c)) = Some cr"
    by (simp add: find_compiled sorted r cr)
  then have "matchRules (fst (compileRules mk ?sorted c)) lines i = Some (makeIssue cr lines i m)"
    by (simp add: matchRules_find m)
  with len have "scanLine (fst (compileRules mk ?sorted c)) lines i = Some (makeIssue cr lines i m)"
    by (simp add: scanLine_def)
  with k top first cr m show ?thesis
    by (intro exI [of _ k] exI [of _ cr] exI [of _ m]) auto
qed

lemma issues_at_line:
  assumes "i < length (splitLines text)"
  shows "filter (\<lambda>x. lineNumber x = i + 1) (issues (report (analyzeLog mk env text fn customRules))) =
     (case scanLine (fst (compileRules mk (arraySort byWeightDesc (activeRules env customRules)) []))
             (splitLines text) i of None \<Rightarrow> [] | Some x \<Rightarrow> [x])"
  unfolding analyzeLog_issues filter_lineNumber_map_filter using assms by simp

lemma scanLine_via_find:
  "scanLine (fst (compileRules mk rs c)) lines i =
     (if length (lines ! i) > 2000 then None
      else case find (ruleMatches mk lines i) rs of None \<Rightarrow> None
           | Some r \<Rightarrow> (case compileRule mk r of Inl e \<Rightarrow> None
               | Inr cr \<Rightarrow> Some (makeIssue cr lines i (the (execRule cr lines i)))))"
  by (simp add: scanLine_def matchRules_find find_compiled split: option.splits sum.splits)

lemma no_rule_fires:
  assumes "\<not> (\<exists>j<length rules. ruleMatches mk lines i (rules ! j))"
  shows "scanLine (fst (compileRules mk (arraySort byWeightDesc rules) c)) lines i = None"
proof -
  from assms have "\<forall>r\<in>set rules. \<not> ruleMatches mk lines i r"
    by (auto simp: in_set_conv_nth)
  then have "find (ruleMatches mk lines i) (arraySort byWeightDesc rules) = None"
    by (simp add: find_None_iff sortRules_sort_key)
  then show ?thesis by (simp add: scanLine_via_find)
qed

text \<open>
  Claim C1. Take a line within the length cap that at least one of the rules passed to the
  scan matches (its pattern compiles, its keyword filter passes and its pattern is found
  at that line). Then the scan emits exactly one issue for that line, and it carries the
  id of a matching rule \<open>k\<close> such that no matching rule has a greater weight and
  every matching rule that comes before \<open>k\<close> in the rule set as passed has a strictly
  smaller weight: the highest weight wins, and among equal weights the earliest.
\<close>

theorem highest_weight_rule_wins:
  assumes "i < length (splitLines text)" and "length (splitLines text ! i) \<le> 2000"
    and "j < length rules" and "ruleMatches mk (splitLines text) i (rules ! j)"
  shows "\<exists>k iss. k < length rules \<and> ruleMatches mk (splitLines text) i (rules ! k)
      \<and> (\<forall>m<length rules. ruleMatches mk (splitLines text) i (rules ! m)
             \<longrightarrow> weight (rules ! m) \<le> weight (rules ! k))
      \<and> (\<forall>m<k. ruleMatches mk (splitLines text) i (rules ! m)
             \<longrightarrow> weight (rules ! m) < weight (rules ! k))
      \<and> filter (\<lambda>x. lineNumber x = i + 1)
           (issues (report (analyzeLog mk env text fn (Some rules)))) = [iss]
      \<and> ruleId iss = id_rule (rules ! k)"
proof -
  from winner_of_line [OF assms, of "[]"] obtain k cr m where
    k: "k < length rules" "ruleMatches mk (splitLines text) i (rules ! k)"
      "\<forall>m<length rules. ruleMatches mk (splitLines text) i (rules ! m)
          \<longrightarrow> weight (rules ! m) \<le> weight (rules ! k)"
      "\<forall>m<k. ruleMatches mk (splitLines text) i (rules ! m)
          \<longrightarrow> weight (rules ! m) < weight (rules ! k)"
    and cr: "compileRule mk (rules ! k) = Inr cr"
    and sl: "scanLine (fst (compileRules mk (arraySort byWeightDesc rules) [])) (splitLines text) i
           = Some (makeIssue cr (splitLines text) i m)"
    by blast
  have "filter (\<lambda>x. lineNumber x = i + 1)
       (issues (report (analyzeLog mk env text fn (Some rules)))) = [makeIssue cr (splitLines text) i m]"
    unfolding issues_at_line [OF assms(1)] by (simp add: activeRules_def sl)
  moreover have "ruleId (makeIssue cr (splitLines text) i m) = id_rule (rules ! k)"
    using compileRule_id [OF cr] by (simp add: makeIssue_def)
  ultimately show ?thesis using k by blast
qed

theorem highest_weight_rule_wins_witness:
  "(0::nat) < length (splitLines ''Build failed'') \<and> length (splitLines ''Build failed'' ! 0) \<le> 2000
   \<and> 2 < length rulesC1 \<and> ruleMatches fragmentRegExp (splitLines ''Build failed'') 0 (rulesC1 ! 0)
   \<and> ruleMatches fragmentRegExp (splitLines ''Build failed'') 0 (rulesC1 ! 1)
   \<and> ruleMatches fragmentRegExp (splitLines ''Build failed'') 0 (rulesC1 ! 2)
   \<and> map ruleId (filter (\<lambda>x. lineNumber x = 0 + 1)
           (issues (report (analyzeLog fragmentRegExp env0 ''Build failed'' ''Editor.log'' (Some rulesC1))))) = [''b'']"
proof -
  have h1: "(0::nat) < length (splitLines ''Build failed'')" by code_simp
  have h2: "length (splitLines ''Build failed'' ! 0) \<le> 2000" by code_simp
  have h3: "2 < length rulesC1" by code_simp
  have h4: "ruleMatches fragmentRegExp (splitLines ''Build failed'') 0 (rulesC1 ! 2)" by code_simp
  have h5: "ruleMatches fragmentRegExp (splitLines ''Build failed'') 0 (rulesC1 ! 0)" by code_simp
  have h6: "ruleMatches fragmentRegExp (splitLines ''Build failed'') 0 (rulesC1 ! 1)" by code_simp
  have w: "weight (rulesC1 ! 0) = 1" "weight (rulesC1 ! 1) = 5" "weight (rulesC1 ! 2) = 5"
    "id_rule (rulesC1 ! 1) = ''b''"
    by code_simp+
  from highest_weight_rule_wins [OF h1 h2 h3 h4, of env0 "''Editor.log''"] obtain k iss where
    k: "k < length rulesC1"
     and top: "\<forall>m<length rulesC1. ruleMatches fragmentRegExp (splitLines ''Build failed'') 0 (rulesC1 ! m)
             \<longrightarrow> weight (rulesC1 ! m) \<le> weight (rulesC1 ! k)"
     and first: "\<forall>m<k. ruleMatches fragmentRegExp (splitLines ''Build failed'') 0 (rulesC1 ! m)
             \<longrightarrow> weight (rulesC1 ! m) < weight (rulesC1 ! k)"
     and res: "filter (\<lambda>x. lineNumber x = 0 + 1)
           (issues (report (analyzeLog fragmentRegExp env0 ''Build failed'' ''Editor.log'' (Some rulesC1)))) = [iss]"
       "ruleId iss = id_rule (rulesC1 ! k)"
    by blast
  have len: "length rulesC1 = 3" by code_simp
  from k len have "k = 0 \<or> k = 1 \<or> k = 2" by auto
  moreover have "k \<noteq> 0"
  proof
    assume "k = 0"
    with top [rule_format, of 2] h4 w len show False by simp
  qed
  moreover have "k \<noteq> 2"
  proof
    assume "k = 2"
    with first [rule_format, of 1] h6 w show False by simp
  qed
  ultimately have "k = 1" by blast
  with res w have "map ruleId (filter (\<lambda>x. lineNumber x = 0 + 1)
           (issues (report (analyzeLog fragmentRegExp env0 ''Build failed'' ''Editor.log'' (Some rulesC1))))) = [''b'']"
    by simp
  with h1 h2 h3 h4 h5 h6 show ?thesis by blast
qed

lemma slice_in_range:
  assumes "0 \<le> s" "s \<le> e" "e \<le> int (length xs)"
  shows "slice xs s e = map ((!) xs) [nat s..<nat e]"
proof -
  have "slice xs s e = take (nat (e - s)) (drop (nat s) xs)"
    using assms by (simp add: slice_def Let_def min_def)
  also have "\<dots> = map ((!) xs) [nat s..<nat e]"
  proof (rule nth_equalityI)
    show "length (take (nat (e - s)) (drop (nat s) xs)) = length (map ((!) xs) [nat s..<nat e])"
      using assms by (simp add: min_def) linarith
  next
    fix k assume "k < length (take (nat (e - s)) (drop (nat s) xs))"
    then have k: "k < nat (e - s)" "k < length xs - nat s" by simp_all
    then have "nat s + k < nat e" using assms by linarith
    with k show "take (nat (e - s)) (drop (nat s) xs) ! k = map ((!) xs) [nat s..<nat e] ! k"
      by simp
  qed
  finally show ?thesis .
qed

lemma extractContext_window:
  assumes "i < length lines"
  shows "extractContext lines i =
     map ((!) lines) [nat (max 0 (int i - 3))..<nat (min (int i + 3) (int (length lines) - 1)) + 1]"
proof -
  let ?s = "max 0 (int i - 3)" and ?e = "min (int (length lines)) (int i + 3 + 1)"
  have "extractContext lines i = slice lines ?s ?e"
    by (simp add: extractContext_def CONTEXT_LINES_def Let_def)
  also have "\<dots> = map ((!) lines) [nat ?s..<nat ?e]"
    using assms by (intro slice_in_range) auto
  also have "nat ?e = nat (min (int i + 3) (int (length lines) - 1)) + 1"
    using assms by linarith
  finally show ?thesis .
qed

lemma issue_origin:
  assumes "iss \<in> set (issues (report (analyzeLog mk env text fn customRules)))"
  shows "\<exists>i cr m. i < length (splitLines text) \<and> length (splitLines text ! i) \<le> 2000
           \<and> cr \<in> set (fst (compileRules mk (arraySort byWeightDesc (activeRules env customRules)) []))
           \<and> fires (splitLines text) i cr \<and> execRule cr (splitLines text) i = Some m
           \<and> iss = makeIssue cr (splitLines text) i m"
proof -
  let ?lines = "splitLines text"
  let ?crs = "fst (compileRules mk (arraySort byWeightDesc (activeRules env customRules)) [])"
  from assms obtain i where i: "i < length ?lines" and sl: "scanLine ?crs ?lines i = Some iss"
    unfolding analyzeLog_issues by (auto simp: List.map_filter_def)
  from sl have len: "length (?lines ! i) \<le> 2000" and mr: "matchRules ?crs ?lines i = Some iss"
    by (auto simp: scanLine_def split: if_splits)
  from mr obtain cr where cr: "find (fires ?lines i) ?crs = Some cr"
      and iss: "iss = makeIssue cr ?lines i (the (execRule cr ?lines i))"
    by (auto simp: matchRules_find split: option.splits)
  from cr have f: "fires ?lines i cr" and mem: "cr \<in> set ?crs"
    by (auto simp: find_Some_iff)
  then obtain m where "execRule cr ?lines i = Some m" by (auto simp: fires_def)
  with i len f iss mem show ?thesis by auto
qed

lemma totalLines_analyzeLog:
  "totalLines (report (analyzeLog mk env text fn customRules)) = length (splitLines text)"
  by (simp add: analyzeLog_def Let_def split: prod.splits)


section \<open>Context windows\<close>

text \<open>
  Claim C6. For every issue of a scan, anchored at the 0-based line index \<open>i\<close> of a
  log of \<open>N\<close> lines, the context is exactly the raw lines with indices from
  \<open>max(0, i-3)\<close> to \<open>min(i+3, N-1)\<close> inclusive; the anchor and the last index
  read are below \<open>N\<close> (the first is a natural number), and the length of the context
  is \<open>min(i+3, N-1) - max(0, i-3) + 1\<close>.
\<close>

theorem context_is_clamped_window:
  assumes "iss \<in> set (issues (report (analyzeLog mk env text fn customRules)))"
    and "lineNumber iss = i + 1"
  shows "i < length (splitLines text)
     \<and> context_i iss = map ((!) (splitLines text))
          [nat (max 0 (int i - 3))..<nat (min (int i + 3) (int (length (splitLines text)) - 1)) + 1]
     \<and> nat (min (int i + 3) (int (length (splitLines text)) - 1)) < length (splitLines text)
     \<and> int (length (context_i iss)) =
          min (int i + 3) (int (length (splitLines text)) - 1) - max 0 (int i - 3) + 1"
proof -
  from issue_origin [OF assms(1)] obtain i' cr m where i': "i' < length (splitLines text)"
      and iss: "iss = makeIssue cr (splitLines text) i' m"
    by blast
  from iss assms(2) have "i' = i" by (simp add: makeIssue_def)
  with i' have i: "i < length (splitLines text)" by simp
  have ctx: "context_i iss = extractContext (splitLines text) i"
    using iss \<open>i' = i\<close> by (simp add: makeIssue_def)
  have win: "context_i iss = map ((!) (splitLines text))
          [nat (max 0 (int i - 3))..<nat (min (int i + 3) (int (length (splitLines text)) - 1)) + 1]"
    unfolding ctx by (rule extractContext_window [OF i])
  define lo hi1 where "lo = nat (max 0 (int i - 3))"
    and "hi1 = nat (min (int i + 3) (int (length (splitLines text)) - 1)) + 1"
  have "length (context_i iss) = hi1 - lo"
    unfolding win lo_def [symmetric] hi1_def [symmetric] by simp
  moreover have "int (hi1 - lo) =
      min (int i + 3) (int (length (splitLines text)) - 1) - max 0 (int i - 3) + 1"
    unfolding lo_def hi1_def using i by linarith
  ultimately have "int (length (context_i iss)) =
          min (int i + 3) (int (length (splitLines text)) - 1) - max 0 (int i - 3) + 1"
    by simp
  moreover have "nat (min (int i + 3) (int (length (splitLines text)) - 1)) < length (splitLines text)"
    using i by linarith
  ultimately show ?thesis using i win by blast
qed


theorem context_is_clamped_window_witness:
  "hd (issues (report (analyzeLog fragmentRegExp env0 logC6 ''Editor.log'' (Some [ruleFailed]))))
     \<in> set (issues (report (analyzeLog fragmentRegExp env0 logC6 ''Editor.log'' (Some [ruleFailed]))))
   \<and> lineNumber (hd (issues (report (analyzeLog fragmentRegExp env0 logC6 ''Editor.log'' (Some [ruleFailed]))))) = 0 + 1
   \<and> context_i (hd (issues (report (analyzeLog fragmentRegExp env0 logC6 ''Editor.log'' (Some [ruleFailed])))))
       = [''Build failed'', ''second line'']
   \<and> int (length (context_i (hd (issues (report (analyzeLog fragmentRegExp env0 logC6 ''Editor.log'' (Some [ruleFailed]))))))) = 2"
proof -
  let ?iss = "hd (issues (report (analyzeLog fragmentRegExp env0 logC6 ''Editor.log'' (Some [ruleFailed]))))"
  have h1: "?iss \<in> set (issues (report (analyzeLog fragmentRegExp env0 logC6 ''Editor.log'' (Some [ruleFailed]))))"
    by code_simp
  have h2: "lineNumber ?iss = 0 + 1" by code_simp
  have l: "splitLines logC6 = [''Build failed'', ''second line'']" by code_simp
  from context_is_clamped_window [OF h1 h2] h1 h2 show ?thesis
    by (simp add: l)
qed

section \<open>The length cap\<close>

lemma splitLines_plain:
  "LF \<notin> set b \<Longrightarrow> splitLines b = [b]"
  by (induction b rule: splitLines.induct) auto

lemma splitLines_first:
  "LF \<notin> set a \<Longrightarrow> CR \<notin> set a \<Longrightarrow> splitLines (a @ LF # b) = a # splitLines b"
proof (induction a)
  case Nil
  then show ?case by (cases b) auto
next
  case (Cons c a)
  then show ?case by (cases a) auto
qed

text \<open>
  What holds of a line over the cap: it is the anchor of no issue, it is counted in
  \<open>totalLines\<close>, and it is in the context of every issue anchored within three lines of
  it, at the position its index gives, as it is in the log.
\<close>

lemma long_line_is_no_anchor:
  assumes "j < length (splitLines text)" and "length (splitLines text ! j) > 2000"
  shows "filter (\<lambda>x. lineNumber x = j + 1) (issues (report (analyzeLog mk env text fn customRules))) = []
     \<and> totalLines (report (analyzeLog mk env text fn customRules)) = length (splitLines text)
     \<and> (\<forall>iss\<in>set (issues (report (analyzeLog mk env text fn customRules))). \<forall>i.
           lineNumber iss = i + 1 \<and> int i - 3 \<le> int j \<and> int j \<le> int i + 3
             \<longrightarrow> context_i iss ! (j - nat (max 0 (int i - 3))) = splitLines text ! j
                 \<and> j - nat (max 0 (int i - 3)) < length (context_i iss))"
proof (intro conjI ballI allI impI)
  show "filter (\<lambda>x. lineNumber x = j + 1) (issues (report (analyzeLog mk env text fn customRules))) = []"
    unfolding issues_at_line [OF assms(1)] using assms(2) by (simp add: scanLine_def)
next
  show "totalLines (report (analyzeLog mk env text fn customRules)) = length (splitLines text)"
    by (rule totalLines_analyzeLog)
next
  fix iss i
  assume iss: "iss \<in> set (issues (report (analyzeLog mk env text fn customRules)))"
    and h: "lineNumber iss = i + 1 \<and> int i - 3 \<le> int j \<and> int j \<le> int i + 3"
  from issue_origin [OF iss] obtain i' cr m where i': "i' < length (splitLines text)"
      and eq: "iss = makeIssue cr (splitLines text) i' m"
    by blast
  from eq h have "i' = i" by (simp add: makeIssue_def)
  with i' have i: "i < length (splitLines text)" by simp
  have win: "context_i iss = map ((!) (splitLines text))
          [nat (max 0 (int i - 3))..<nat (min (int i + 3) (int (length (splitLines text)) - 1)) + 1]"
    using eq \<open>i' = i\<close> extractContext_window [OF i] by (simp add: makeIssue_def)
  define lo hi1 where "lo = nat (max 0 (int i - 3))"
    and "hi1 = nat (min (int i + 3) (int (length (splitLines text)) - 1)) + 1"
  have lo: "lo \<le> j" unfolding lo_def using h by linarith
  have hi: "j < hi1" unfolding hi1_def using h assms(1) by linarith
  have win': "context_i iss = map ((!) (splitLines text)) [lo..<hi1]"
    unfolding lo_def hi1_def by (rule win)
  from lo hi have "context_i iss ! (j - lo) = splitLines text ! j"
    unfolding win' by simp
  then show "context_i iss ! (j - nat (max 0 (int i - 3))) = splitLines text ! j"
    unfolding lo_def .
  from lo hi have "j - lo < length (context_i iss)"
    unfolding win' by simp
  then show "j - nat (max 0 (int i - 3)) < length (context_i iss)"
    unfolding lo_def .
qed

lemma lines_logLong: "splitLines logLong = [''ok'', longLine]"
proof -
  have "LF \<notin> set longLine" by (auto simp: longLine_def)
  then have "splitLines longLine = [longLine]" by (rule splitLines_plain)
  moreover have "splitLines (''ok'' @ LF # longLine) = ''ok'' # splitLines longLine"
    by (rule splitLines_first) auto
  ultimately show ?thesis by (simp add: logLong_def)
qed

lemma scan_before_long_line:
  "map_option (\<lambda>x. (lineNumber x, matchContent x, ruleId x))
     (scanLine (fst (compileRules fragmentRegExp (arraySort byWeightDesc [ruleNext]) []))
        [''ok'', ''failed'' @ tail] 0) = Some (1, ''...'', ''next'')"
  by code_simp

lemma window_before_long_line:
  "map (\<lambda>cr. (isMultiline cr, regExp cr (contextWindow [''ok'', ''failed'' @ tail] 0)))
     (fst (compileRules fragmentRegExp (arraySort byWeightDesc [ruleNext]) []))
   = [(True, Some (LF # ''failed''))]"
  by code_simp

text \<open>
  Claim C5 says that a line longer than 2000 code units never produces an issue, whatever
  rules its content satisfies. The scan skips such a line as an anchor, but the window of
  a multiline rule evaluated at one of the nine lines before it is joined from the raw
  lines with no test of their length, so the pattern runs over the long line and an issue
  is produced from its text. In the log of the two lines \<open>ok\<close> and \<open>failed\<close>
  followed by 2001 times \<open>x\<close>, the rule \<open>\nfailed\<close> is found in the window at line 1,
  in the text of the over-long line 2, and the scan reports it at line 1; on the line
  \<open>ok\<close> alone it reports nothing.
\<close>

theorem long_line_matched_through_window:
  "splitLines logLong = [''ok'', longLine] \<and> length longLine = 2007
   \<and> map (\<lambda>cr. (isMultiline cr, regExp cr (contextWindow (splitLines logLong) 0)))
        (fst (compileRules fragmentRegExp (arraySort byWeightDesc [ruleNext]) []))
      = [(True, Some (LF # ''failed''))]
   \<and> map (\<lambda>x. (lineNumber x, matchContent x, ruleId x))
        (issues (report (analyzeLog fragmentRegExp env0 logLong ''Editor.log'' (Some [ruleNext]))))
      = [(1, ''...'', ''next'')]
   \<and> issues (report (analyzeLog fragmentRegExp env0 ''ok'' ''Editor.log'' (Some [ruleNext]))) = []"
proof -
  let ?crs = "fst (compileRules fragmentRegExp (arraySort byWeightDesc [ruleNext]) [])"
  have len: "length longLine = 2007" by (simp add: longLine_def)
  have s0: "map_option (\<lambda>x. (lineNumber x, matchContent x, ruleId x))
      (scanLine ?crs [''ok'', longLine] 0) = Some (1, ''...'', ''next'')"
    unfolding longLine_def by (rule scan_before_long_line)
  have s1: "scanLine ?crs [''ok'', longLine] 1 = None"
    by (simp add: scanLine_def len)
  have upt: "[0..<length [''ok'', longLine]] = [0, 1]" by (simp add: upt_rec)
  have "map (\<lambda>x. (lineNumber x, matchContent x, ruleId x))
        (issues (report (analyzeLog fragmentRegExp env0 logLong ''Editor.log'' (Some [ruleNext]))))
      = [(1, ''...'', ''next'')]"
    unfolding analyzeLog_issues lines_logLong upt using s0 s1
    by (auto simp: activeRules_def split: option.splits)
  moreover have "map (\<lambda>cr. (isMultiline cr, regExp cr (contextWindow (splitLines logLong) 0))) ?crs
      = [(True, Some (LF # ''failed''))]"
    unfolding lines_logLong longLine_def by (rule window_before_long_line)
  moreover have "issues (report (analyzeLog fragmentRegExp env0 ''ok'' ''Editor.log'' (Some [ruleNext]))) = []"
    by code_simp
  ultimately show ?thesis using lines_logLong len by blast
qed

lemma arraySort_idem: "arraySort byWeightDesc (arraySort byWeightDesc rs) = arraySort byWeightDesc rs"
  unfolding sortRules_sort_key by (rule sort_key_id_if_sorted) simp

lemma issues_depend_on:
  "issues (report (analyzeLog mk env text fn customRules)) =
     scanLoop (fst (compileRules mk (arraySort byWeightDesc (activeRules env customRules)) []))
       (splitLines text) 0 []"
  by (simp add: analyzeLog_def Let_def activeRules_def split: prod.splits)

lemma rulesArray_analyzeLog:
  "rulesArray (analyzeLog mk env text fn customRules) = arraySort byWeightDesc (activeRules env customRules)"
  by (simp add: analyzeLog_def Let_def activeRules_def split: prod.splits)


section \<open>Repeating a scan\<close>

text \<open>
  Claim C8. Two scans of the same text with the same rules give the same issues, in
  content and order, and the same \<open>totalLines\<close>, whatever the clock readings, the date
  and the file name of each run are; this also holds when the second scan is given the
  very array the first one has sorted in place.
\<close>

theorem rescan_gives_same_issues:
  "issues (report (analyzeLog mk (env\<lparr>startTime := s, endTime := e, isoNow := d\<rparr>) text fn' customRules))
      = issues (report (analyzeLog mk env text fn customRules))
   \<and> totalLines (report (analyzeLog mk (env\<lparr>startTime := s, endTime := e, isoNow := d\<rparr>) text fn' customRules))
      = totalLines (report (analyzeLog mk env text fn customRules))
   \<and> issues (report (analyzeLog mk env' text fn'
        (Some (rulesArray (analyzeLog mk env text fn (Some rules))))))
      = issues (report (analyzeLog mk env text fn (Some rules)))
   \<and> totalLines (report (analyzeLog mk env' text fn'
        (Some (rulesArray (analyzeLog mk env text fn (Some rules))))))
      = totalLines (report (analyzeLog mk env text fn (Some rules)))"
  by (simp add: issues_depend_on totalLines_analyzeLog rulesArray_analyzeLog activeRules_def
      arraySort_idem split: option.splits)


section \<open>Multiline rules\<close>

text \<open>
  Claim C10. The issues of a scan are fixed line by line. At a line within the length cap
  at which some rule matches, exactly one issue has that line's 1-based index as its line
  number: the issue of the matching rule that wins by priority; when that rule is a
  multiline rule, its pattern was found in the window of the ten lines starting at that
  line, wherever in the window, and the match content is the first line of the text
  matched followed by the ellipsis. At any other line no issue is anchored, and every
  issue arises in this way. So the anchor of a multiline match is always the first line
  of the window, and one occurrence of a two-line pattern can give several issues: in the
  log of the three lines \<open>x\<close>, \<open>A\<close>, \<open>B\<close> the pattern \<open>A\nB\<close> matches at one
  position only, and the scan reports it at line 1 and again at line 2.
\<close>

theorem multiline_issue_anchored_at_window_start:
  "(\<forall>iss\<in>set (issues (report (analyzeLog mk env text fn customRules))).
      \<exists>i cr m. i < length (splitLines text) \<and> lineNumber iss = i + 1
        \<and> cr \<in> set (fst (compileRules mk (arraySort byWeightDesc (activeRules env customRules)) []))
        \<and> ruleId iss = id_rule cr
        \<and> (isMultiline cr \<longrightarrow>
              regExp cr (join (slice (splitLines text) (int i) (int i + 10)) [LF]) = Some m
              \<and> matchContent iss = firstLine m @ ''...''))
   \<and> (\<forall>i<length (splitLines text).
        length (splitLines text ! i) \<le> 2000
        \<and> (\<exists>j<length (activeRules env customRules).
              ruleMatches mk (splitLines text) i (activeRules env customRules ! j))
        \<longrightarrow> (\<exists>k cr m iss. k < length (activeRules env customRules)
              \<and> ruleMatches mk (splitLines text) i (activeRules env customRules ! k)
              \<and> (\<forall>n<length (activeRules env customRules).
                    ruleMatches mk (splitLines text) i (activeRules env customRules ! n)
                    \<longrightarrow> weight (activeRules env customRules ! n)
                          \<le> weight (activeRules env customRules ! k))
              \<and> (\<forall>n<k. ruleMatches mk (splitLines text) i (activeRules env customRules ! n)
                    \<longrightarrow> weight (activeRules env customRules ! n)
                          < weight (activeRules env customRules ! k))
              \<and> compileRule mk (activeRules env customRules ! k) = Inr cr
              \<and> filter (\<lambda>x. lineNumber x = i + 1)
                   (issues (report (analyzeLog mk env text fn customRules))) = [iss]
              \<and> lineNumber iss = i + 1
              \<and> ruleId iss = id_rule (activeRules env customRules ! k)
              \<and> (isMultiline cr \<longrightarrow>
                    regExp cr (join (slice (splitLines text) (int i) (int i + 10)) [LF]) = Some m
                    \<and> matchContent iss = firstLine m @ ''...'')))
   \<and> (\<forall>i<length (splitLines text).
        \<not> (length (splitLines text ! i) \<le> 2000
           \<and> (\<exists>j<length (activeRules env customRules).
                 ruleMatches mk (splitLines text) i (activeRules env customRules ! j)))
        \<longrightarrow> filter (\<lambda>x. lineNumber x = i + 1)
              (issues (report (analyzeLog mk env text fn customRules))) = [])
   \<and> splitLines logC10 = [''x'', ''A'', ''B'']
   \<and> length (filter (\<lambda>p. matchAtoms [Lit (CHR ''A''), Lit LF, Lit (CHR ''B'')] (drop p logC10) \<noteq> None)
        [0..<Suc (length logC10)]) = 1
   \<and> map (\<lambda>x. (lineNumber x, matchContent x))
        (issues (report (analyzeLog fragmentRegExp env0 logC10 ''Editor.log'' (Some [ruleTrace]))))
      = [(1, ''A...''), (2, ''A...'')]"
proof -
  let ?lines = "splitLines text"
  let ?rules = "activeRules env customRules"
  let ?issues = "issues (report (analyzeLog mk env text fn customRules))"
  let ?crs = "fst (compileRules mk (arraySort byWeightDesc ?rules) [])"
  have A: "\<exists>i cr m. i < length ?lines \<and> lineNumber iss = i + 1 \<and> cr \<in> set ?crs
        \<and> ruleId iss = id_rule cr
        \<and> (isMultiline cr \<longrightarrow>
              regExp cr (join (slice ?lines (int i) (int i + 10)) [LF]) = Some m
              \<and> matchContent iss = firstLine m @ ''...'')"
    if "iss \<in> set ?issues" for iss
  proof -
    from issue_origin [OF that] obtain i cr m where i: "i < length ?lines"
        and cr: "cr \<in> set ?crs"
        and m: "execRule cr ?lines i = Some m"
        and iss: "iss = makeIssue cr ?lines i m"
      by blast
    have "lineNumber iss = i + 1" "ruleId iss = id_rule cr"
      using iss by (simp_all add: makeIssue_def)
    moreover have "isMultiline cr \<longrightarrow>
        regExp cr (join (slice ?lines (int i) (int i + 10)) [LF]) = Some m
        \<and> matchContent iss = firstLine m @ ''...''"
      using m iss by (auto simp: execRule_def contextWindow_def makeIssue_def split: if_splits)
    ultimately show ?thesis using i cr by blast
  qed
  have B: "\<exists>k cr m iss. k < length ?rules \<and> ruleMatches mk ?lines i (?rules ! k)
        \<and> (\<forall>n<length ?rules. ruleMatches mk ?lines i (?rules ! n)
              \<longrightarrow> weight (?rules ! n) \<le> weight (?rules ! k))
        \<and> (\<forall>n<k. ruleMatches mk ?lines i (?rules ! n)
              \<longrightarrow> weight (?rules ! n) < weight (?rules ! k))
        \<and> compileRule mk (?rules ! k) = Inr cr
        \<and> filter (\<lambda>x. lineNumber x = i + 1) ?issues = [iss]
        \<and> lineNumber iss = i + 1
        \<and> ruleId iss = id_rule (?rules ! k)
        \<and> (isMultiline cr \<longrightarrow>
              regExp cr (join (slice ?lines (int i) (int i + 10)) [LF]) = Some m
              \<and> matchContent iss = firstLine m @ ''...'')"
    if i: "i < length ?lines" and cap: "length (?lines ! i) \<le> 2000"
      and ex: "\<exists>j<length ?rules. ruleMatches mk ?lines i (?rules ! j)" for i
  proof -
    from ex obtain j where j: "j < length ?rules" "ruleMatches mk ?lines i (?rules ! j)"
      by blast
    from winner_of_line [OF i cap j, of "[]"] obtain k cr m where
      k: "k < length ?rules" "ruleMatches mk ?lines i (?rules ! k)"
        "\<forall>n<length ?rules. ruleMatches mk ?lines i (?rules ! n)
            \<longrightarrow> weight (?rules ! n) \<le> weight (?rules ! k)"
        "\<forall>n<k. ruleMatches mk ?lines i (?rules ! n)
            \<longrightarrow> weight (?rules ! n) < weight (?rules ! k)"
      and cr: "compileRule mk (?rules ! k) = Inr cr"
      and m: "execRule cr ?lines i = Some m"
      and sl: "scanLine ?crs ?lines i = Some (makeIssue cr ?lines i m)"
      by blast
    let ?iss = "makeIssue cr ?lines i m"
    have f: "filter (\<lambda>x. lineNumber x = i + 1) ?issues = [?iss]"
      unfolding issues_at_line [OF i] by (simp add: sl)
    have ln: "lineNumber ?iss = i + 1" by (simp add: makeIssue_def)
    have rid: "ruleId ?iss = id_rule (?rules ! k)"
      using compileRule_id [OF cr] by (simp add: makeIssue_def)
    have ml: "isMultiline cr \<longrightarrow>
        regExp cr (join (slice ?lines (int i) (int i + 10)) [LF]) = Some m
        \<and> matchContent ?iss = firstLine m @ ''...''"
      using m by (auto simp: execRule_def contextWindow_def makeIssue_def split: if_splits)
    from k cr f ln rid ml show ?thesis by blast
  qed
  have C: "filter (\<lambda>x. lineNumber x = i + 1) ?issues = []"
    if i: "i < length ?lines"
      and no: "\<not> (length (?lines ! i) \<le> 2000
           \<and> (\<exists>j<length ?rules. ruleMatches mk ?lines i (?rules ! j)))" for i
  proof (cases "length (?lines ! i) \<le> 2000")
    case False
    then show ?thesis unfolding issues_at_line [OF i] by (simp add: scanLine_def)
  next
    case True
    with no have "\<not> (\<exists>j<length ?rules. ruleMatches mk ?lines i (?rules ! j))" by blast
    from no_rule_fires [OF this] show ?thesis
      unfolding issues_at_line [OF i] by simp
  qed
  have D1: "splitLines logC10 = [''x'', ''A'', ''B'']" by code_simp
  have D2: "length (filter (\<lambda>p. matchAtoms [Lit (CHR ''A''), Lit LF, Lit (CHR ''B'')] (drop p logC10) \<noteq> None)
          [0..<Suc (length logC10)]) = 1" by code_simp
  have D3: "map (\<lambda>x. (lineNumber x, matchContent x))
          (issues (report (analyzeLog fragmentRegExp env0 logC10 ''Editor.log'' (Some [ruleTrace]))))
        = [(1, ''A...''), (2, ''A...'')]" by code_simp
  show ?thesis
    apply (intro conjI ballI allI impI)
    subgoal for iss by (rule A)
    subgoal for i by (rule B) blast+
    subgoal for i by (rule C) blast+
    subgoal by (rule D1)
    subgoal by (rule D2)
    subgoal by (rule D3)
    done
qed

theorem multiline_issue_anchored_at_window_start_witness:
  "0 < length (splitLines logC10) \<and> length (splitLines logC10 ! 0) \<le> 2000
   \<and> ruleMatches fragmentRegExp (splitLines logC10) 0 (activeRules env0 (Some [ruleTrace]) ! 0)
   \<and> matchAtoms [Lit (CHR ''A''), Lit LF, Lit (CHR ''B'')] (contextWindow (splitLines logC10) 0) = None
   \<and> (\<exists>iss. filter (\<lambda>x. lineNumber x = 0 + 1)
          (issues (report (analyzeLog fragmentRegExp env0 logC10 ''Editor.log'' (Some [ruleTrace])))) = [iss]
        \<and> lineNumber iss = 0 + 1 \<and> ruleId iss = ''trace'' \<and> matchContent iss = ''A...'')"
proof -
  let ?rules = "activeRules env0 (Some [ruleTrace])"
  let ?issues = "issues (report (analyzeLog fragmentRegExp env0 logC10 ''Editor.log'' (Some [ruleTrace])))"
  have h1: "0 < length (splitLines logC10)" by code_simp
  have h2: "length (splitLines logC10 ! 0) \<le> 2000" by code_simp
  have h3: "ruleMatches fragmentRegExp (splitLines logC10) 0 (?rules ! 0)" by code_simp
  have h4: "matchAtoms [Lit (CHR ''A''), Lit LF, Lit (CHR ''B'')] (contextWindow (splitLines logC10) 0) = None"
    by code_simp
  have len: "length ?rules = 1" by (simp add: activeRules_def)
  have rule0: "?rules ! 0 = ruleTrace" by (simp add: activeRules_def)
  have idr: "id_rule ruleTrace = ''trace''" by code_simp
  have c0: "case compileRule fragmentRegExp ruleTrace of Inl e \<Rightarrow> False
      | Inr cr \<Rightarrow> isMultiline cr
          \<and> regExp cr (join (slice (splitLines logC10) (int 0) (int 0 + 10)) [LF])
              = Some (''A'' @ [LF] @ ''B'')"
    by code_simp
  have fl: "firstLine (''A'' @ [LF] @ ''B'') @ ''...'' = ''A...''" by code_simp
  from h3 len have ex: "\<exists>j<length ?rules. ruleMatches fragmentRegExp (splitLines logC10) 0 (?rules ! j)"
    by auto
  from multiline_issue_anchored_at_window_start
    [of fragmentRegExp env0 logC10 "''Editor.log''" "Some [ruleTrace]"]
  have "\<forall>i<length (splitLines logC10).
        length (splitLines logC10 ! i) \<le> 2000
        \<and> (\<exists>j<length ?rules. ruleMatches fragmentRegExp (splitLines logC10) i (?rules ! j))
        \<longrightarrow> (\<exists>k cr m iss. k < length ?rules
              \<and> compileRule fragmentRegExp (?rules ! k) = Inr cr
              \<and> filter (\<lambda>x. lineNumber x = i + 1) ?issues = [iss]
              \<and> lineNumber iss = i + 1
              \<and> ruleId iss = id_rule (?rules ! k)
              \<and> (isMultiline cr \<longrightarrow>
                    regExp cr (join (slice (splitLines logC10) (int i) (int i + 10)) [LF]) = Some m
                    \<and> matchContent iss = firstLine m @ ''...''))"
    by blast
  from this [rule_format, of 0] h1 h2 ex obtain k cr m iss where k: "k < length ?rules"
      and cr: "compileRule fragmentRegExp (?rules ! k) = Inr cr"
      and f: "filter (\<lambda>x. lineNumber x = 0 + 1) ?issues = [iss]"
      and ln: "lineNumber iss = 0 + 1"
      and rid: "ruleId iss = id_rule (?rules ! k)"
      and ml: "isMultiline cr \<longrightarrow>
                    regExp cr (join (slice (splitLines logC10) (int 0) (int 0 + 10)) [LF]) = Some m
                    \<and> matchContent iss = firstLine m @ ''...''"
    by blast
  from k len have "k = 0" by simp
  with cr rule0 have cr0: "compileRule fragmentRegExp ruleTrace = Inr cr" by simp
  from c0 have multi: "isMultiline cr"
      and win: "regExp cr (join (slice (splitLines logC10) (int 0) (int 0 + 10)) [LF])
              = Some (''A'' @ [LF] @ ''B'')"
    unfolding cr0 by simp_all
  from ml multi win have "matchContent iss = firstLine (''A'' @ [LF] @ ''B'') @ ''...''"
    by simp
  then have mc: "matchContent iss = ''A...''" unfolding fl .
  from rid \<open>k = 0\<close> rule0 idr have "ruleId iss = ''trace''" by simp
  with f ln mc have "\<exists>iss. filter (\<lambda>x. lineNumber x = 0 + 1) ?issues = [iss]
        \<and> lineNumber iss = 0 + 1 \<and> ruleId iss = ''trace'' \<and> matchContent iss = ''A...''"
    by blast
  with h1 h2 h3 h4 show ?thesis by blast
qed

section \<open>The empty log\<close>

lemma ruleMatches_empty_line:
  "ruleMatches mk [[]] 0 r \<longleftrightarrow>
     (\<exists>re. mk (sanitize (regex r)) = Inr re
        \<and> (keywords_rule r = [] \<or> [] \<in> set (keywords_rule r)) \<and> re [] \<noteq> None)"
proof -
  have kw: "list_ex (\<lambda>k. k = []) ks \<longleftrightarrow> [] \<in> set ks" for ks :: "string list"
    by (induction ks) auto
  have win: "contextWindow [[]] 0 = []"
    by (simp add: contextWindow_def slice_def)
  show ?thesis
    by (cases "mk (sanitize (regex r))")
      (auto simp: ruleMatches_def compileRule_def Let_def fires_def passesKeywordFilter_def
        hasKeyword_def kw execRule_def win LogRule.defs)
qed


text \<open>
  Claim C7, as stated, fails: a rule without keywords whose pattern matches the empty
  text gives an issue on the single empty line of a zero-length log.
\<close>

theorem empty_log_counterexample:
  "\<not> (issues (report (analyzeLog fragmentRegExp env0 '''' ''Editor.log'' (Some [ruleAny]))) = []
      \<and> totalLines (report (analyzeLog fragmentRegExp env0 '''' ''Editor.log'' (Some [ruleAny]))) = 1)"
  by code_simp


text \<open>
  Claim C7, amended. Scanning a zero-length log gives a report with \<open>totalLines = 1\<close>
  and at most one issue, anchored at line 1; the issues are empty exactly when no active
  rule has a pattern that compiles and matches the empty text together with a keyword
  list that is empty or contains the empty keyword.
\<close>

theorem empty_log_report:
  "totalLines (report (analyzeLog mk env '''' fn customRules)) = 1
   \<and> length (issues (report (analyzeLog mk env '''' fn customRules))) \<le> 1
   \<and> (issues (report (analyzeLog mk env '''' fn customRules)) = [] \<longleftrightarrow>
        \<not> (\<exists>r\<in>set (activeRules env customRules). \<exists>re. mk (sanitize (regex r)) = Inr re
              \<and> (keywords_rule r = [] \<or> [] \<in> set (keywords_rule r)) \<and> re [] \<noteq> None))
   \<and> (\<forall>iss\<in>set (issues (report (analyzeLog mk env '''' fn customRules))). lineNumber iss = 1)"
proof -
  let ?rules = "activeRules env customRules"
  let ?crs = "fst (compileRules mk (arraySort byWeightDesc ?rules) [])"
  have iss: "issues (report (analyzeLog mk env '''' fn customRules)) =
      (case matchRules ?crs [[]] 0 of None \<Rightarrow> [] | Some x \<Rightarrow> [x])"
    by (simp add: analyzeLog_issues scanLine_def split: option.splits)
  have "matchRules ?crs [[]] 0 = None \<longleftrightarrow> find (fires [[]] 0) ?crs = None"
    by (simp add: matchRules_find split: option.splits)
  also have "\<dots> \<longleftrightarrow> find (ruleMatches mk [[]] 0) (arraySort byWeightDesc ?rules) = None"
  proof (cases "find (ruleMatches mk [[]] 0) (arraySort byWeightDesc ?rules)")
    case None
    then show ?thesis by (simp add: find_compiled)
  next
    case (Some r)
    then have "ruleMatches mk [[]] 0 r" by (auto simp: find_Some_iff)
    then obtain cr where "compileRule mk r = Inr cr"
      by (auto simp: ruleMatches_def split: sum.splits)
    with Some show ?thesis by (simp add: find_compiled)
  qed
  also have "\<dots> \<longleftrightarrow> \<not> (\<exists>r\<in>set ?rules. ruleMatches mk [[]] 0 r)"
    by (auto simp: find_None_iff sortRules_sort_key)
  finally have none: "matchRules ?crs [[]] 0 = None \<longleftrightarrow>
      \<not> (\<exists>r\<in>set ?rules. \<exists>re. mk (sanitize (regex r)) = Inr re
              \<and> (keywords_rule r = [] \<or> [] \<in> set (keywords_rule r)) \<and> re [] \<noteq> None)"
    by (simp add: ruleMatches_empty_line)
  have ln: "\<forall>iss\<in>set (issues (report (analyzeLog mk env '''' fn customRules))). lineNumber iss = 1"
    unfolding iss by (auto simp: matchRules_find makeIssue_def split: option.splits)
  have "totalLines (report (analyzeLog mk env '''' fn customRules)) = 1"
    by (simp add: totalLines_analyzeLog)
  moreover have "length (issues (report (analyzeLog mk env '''' fn customRules))) \<le> 1"
    unfolding iss by (simp split: option.splits)
  moreover have "issues (report (analyzeLog mk env '''' fn customRules)) = [] \<longleftrightarrow>
        \<not> (\<exists>r\<in>set ?rules. \<exists>re. mk (sanitize (regex r)) = Inr re
              \<and> (keywords_rule r = [] \<or> [] \<in> set (keywords_rule r)) \<and> re [] \<noteq> None)"
    unfolding iss none [symmetric] by (simp split: option.splits)
  ultimately show ?thesis using ln by blast
qed

theorem empty_log_report_witness:
  "issues (report (analyzeLog fragmentRegExp env0 '''' ''Editor.log'' (Some [ruleFailed]))) = []
   \<and> totalLines (report (analyzeLog fragmentRegExp env0 '''' ''Editor.log'' (Some [ruleFailed]))) = 1
   \<and> \<not> (\<exists>r\<in>set (activeRules env0 (Some [ruleFailed])). \<exists>re. fragmentRegExp (sanitize (regex r)) = Inr re
              \<and> (keywords_rule r = [] \<or> [] \<in> set (keywords_rule r)) \<and> re [] \<noteq> None)"
proof -
  have "\<not> (\<exists>r\<in>set (activeRules env0 (Some [ruleFailed])). \<exists>re. fragmentRegExp (sanitize (regex r)) = Inr re
              \<and> (keywords_rule r = [] \<or> [] \<in> set (keywords_rule r)) \<and> re [] \<noteq> None)"
    by (simp add: activeRules_def ruleFailed_def mkRule_def)
  with empty_log_report [of fragmentRegExp env0 "''Editor.log''" "Some [ruleFailed]"]
  show ?thesis by blast
qed


section \<open>The caller's rule array\<close>

text \<open>
  Claim C4, as stated, fails: the scan sorts the array it is given, so a caller whose
  rules are not in descending order of weight finds them reordered.
\<close>

theorem caller_rules_counterexample:
  "rulesArray (analyzeLog fragmentRegExp env0 ''Build failed'' ''Editor.log'' (Some rulesC1)) \<noteq> rulesC1
   \<and> map id_rule rulesC1 = [''a'', ''b'', ''c'']
   \<and> map id_rule (rulesArray (analyzeLog fragmentRegExp env0 ''Build failed'' ''Editor.log'' (Some rulesC1)))
       = [''b'', ''c'', ''a'']"
proof -
  have a: "map id_rule rulesC1 = [''a'', ''b'', ''c'']" by code_simp
  have b: "map id_rule (rulesArray (analyzeLog fragmentRegExp env0 ''Build failed'' ''Editor.log'' (Some rulesC1)))
       = [''b'', ''c'', ''a'']" by code_simp
  have "rulesArray (analyzeLog fragmentRegExp env0 ''Build failed'' ''Editor.log'' (Some rulesC1)) \<noteq> rulesC1"
  proof
    assume "rulesArray (analyzeLog fragmentRegExp env0 ''Build failed'' ''Editor.log'' (Some rulesC1)) = rulesC1"
    with a b show False by simp
  qed
  with a b show ?thesis by blast
qed


text \<open>
  Claim C4, amended. After the scan the caller's array holds the same rules, sorted by
  weight in descending order with rules of equal weight in their original relative order;
  it is element for element what it was before the call exactly when it was already in
  descending order of weight.
\<close>

theorem caller_rules_sorted_in_place:
  "mset (rulesArray (analyzeLog mk env text fn (Some rules))) = mset rules
   \<and> sorted_wrt (\<lambda>a b. weight b \<le> weight a) (rulesArray (analyzeLog mk env text fn (Some rules)))
   \<and> (\<forall>w. filter (\<lambda>r. weight r = w) (rulesArray (analyzeLog mk env text fn (Some rules)))
          = filter (\<lambda>r. weight r = w) rules)
   \<and> (rulesArray (analyzeLog mk env text fn (Some rules)) = rules
        \<longleftrightarrow> sorted_wrt (\<lambda>a b. weight b \<le> weight a) rules)"
proof -
  let ?f = "\<lambda>r. - weight r"
  have ra: "rulesArray (analyzeLog mk env text fn (Some rules)) = sort_key ?f rules"
    by (simp add: rulesArray_analyzeLog activeRules_def sortRules_sort_key)
  have sw: "sorted_wrt (\<lambda>a b. weight b \<le> weight a) xs \<longleftrightarrow> sorted (map ?f xs)" for xs :: "LogRule list"
    by (induction xs) auto
  have "mset (sort_key ?f rules) = mset rules" by simp
  moreover have "sorted_wrt (\<lambda>a b. weight b \<le> weight a) (sort_key ?f rules)"
    unfolding sw by simp
  moreover have "\<forall>w. filter (\<lambda>r. weight r = w) (sort_key ?f rules) = filter (\<lambda>r. weight r = w) rules"
  proof
    fix w
    have "filter (\<lambda>r. ?f r = - w) (sort_key ?f rules) = filter (\<lambda>r. ?f r = - w) rules"
      by (rule sort_key_stable)
    then show "filter (\<lambda>r. weight r = w) (sort_key ?f rules) = filter (\<lambda>r. weight r = w) rules"
      by simp
  qed
  moreover have "sort_key ?f rules = rules \<longleftrightarrow> sorted_wrt (\<lambda>a b. weight b \<le> weight a) rules"
  proof
    assume "sort_key ?f rules = rules"
    moreover have "sorted (map ?f (sort_key ?f rules))" by simp
    ultimately show "sorted_wrt (\<lambda>a b. weight b \<le> weight a) rules"
      unfolding sw by simp
  next
    assume "sorted_wrt (\<lambda>a b. weight b \<le> weight a) rules"
    then show "sort_key ?f rules = rules"
      unfolding sw by (rule sort_key_id_if_sorted)
  qed
  ultimately show ?thesis unfolding ra by blast
qed

section \<open>Rules whose pattern does not compile\<close>

lemma sort_two:
  "arraySort byWeightDesc [a, b] = [a, b] \<or> arraySort byWeightDesc [a, b] = [b, a]"
  by (simp add: arraySort_def)

lemma report_analyzeLog:
  "report (analyzeLog mk env text fn customRules) =
     \<lparr>fileName = fn, totalLines = length (splitLines text), timestamp = isoNow env,
      issues = scanLoop (fst (compileRules mk (arraySort byWeightDesc (activeRules env customRules)) []))
                 (splitLines text) 0 [],
      durationMs = mathRound (endTime env - startTime env)\<rparr>"
  by (simp add: analyzeLog_def Let_def activeRules_def split: prod.splits)

lemma report_depends_on:
  assumes "fst (compileRules mk (arraySort byWeightDesc (activeRules env c1)) []) =
           fst (compileRules mk (arraySort byWeightDesc (activeRules env c2)) [])"
  shows "report (analyzeLog mk env text fn c1) = report (analyzeLog mk env text fn c2)"
  unfolding report_analyzeLog assms ..

lemma console_analyzeLog:
  "console (analyzeLog mk env text fn customRules) =
     snd (compileRules mk (arraySort byWeightDesc (activeRules env customRules)) [])"
  by (simp add: analyzeLog_def Let_def activeRules_def split: prod.splits)


text \<open>
  Claim C3, as stated, fails in its last part: with an invalid rule beside a valid one the
  scan completes and reports what the valid rule finds, and the diagnostic goes to the
  error console; the report the caller receives is the one it would receive without the
  invalid rule, so nothing about that rule reaches the caller.
\<close>

theorem invalid_rule_counterexample:
  "report (analyzeLog fragmentRegExp env0 ''Build failed'' ''Editor.log'' (Some [ruleBad, ruleFailed]))
     = report (analyzeLog fragmentRegExp env0 ''Build failed'' ''Editor.log'' (Some [ruleFailed]))
   \<and> map ruleId (issues (report (analyzeLog fragmentRegExp env0 ''Build failed'' ''Editor.log''
        (Some [ruleBad, ruleFailed])))) = [''7'']
   \<and> console (analyzeLog fragmentRegExp env0 ''Build failed'' ''Editor.log'' (Some [ruleBad, ruleFailed]))
     = [(''Invalid Regex for rule rule bad: (failed'', ''SyntaxError: Invalid regular expression: /(failed/'')]"
  by code_simp


text \<open>
  Claim C3, amended. With one rule whose pattern the constructor rejects and one valid
  rule, in either order, the scan completes, writes exactly one diagnostic to the error
  console, naming the invalid rule and carrying the constructor's error, and returns the
  very report that a scan with the valid rule alone returns, which has no diagnostic.
\<close>

theorem invalid_rule_logged_and_dropped:
  assumes "mk (sanitize (regex bad)) = Inl e" and "mk (sanitize (regex good)) = Inr re"
    and "rules = [bad, good] \<or> rules = [good, bad]"
  shows "console (analyzeLog mk env text fn (Some rules)) = [(invalidRegexMessage bad, e)]
     \<and> console (analyzeLog mk env text fn (Some [good])) = []
     \<and> report (analyzeLog mk env text fn (Some rules)) = report (analyzeLog mk env text fn (Some [good]))"
proof -
  from assms(1) have bad: "compileRule mk bad = Inl (invalidRegexMessage bad, e)"
    by (simp add: compileRule_def Let_def)
  from assms(2) obtain cr where good: "compileRule mk good = Inr cr"
    by (simp add: compileRule_def Let_def)
  from assms(3) sort_two [of bad good] sort_two [of good bad]
  have "arraySort byWeightDesc rules = [bad, good] \<or> arraySort byWeightDesc rules = [good, bad]"
    by auto
  then have both: "compileRules mk (arraySort byWeightDesc rules) [] = ([cr], [(invalidRegexMessage bad, e)])"
    using bad good by auto
  have one: "compileRules mk (arraySort byWeightDesc [good]) [] = ([cr], [])"
    using good by (simp add: arraySort_def)
  have "report (analyzeLog mk env text fn (Some rules)) = report (analyzeLog mk env text fn (Some [good]))"
    by (rule report_depends_on) (simp add: activeRules_def both one)
  then show ?thesis
    by (simp add: console_analyzeLog activeRules_def both one)
qed

theorem invalid_rule_logged_and_dropped_witness:
  "fragmentRegExp (sanitize (regex ruleBad)) = Inl ''SyntaxError: Invalid regular expression: /(failed/''
   \<and> fragmentRegExp (sanitize (regex ruleFailed))
        = Inr (searchAtoms [Lit CHR ''f'', Lit CHR ''a'', Lit CHR ''i'', Lit CHR ''l'', Lit CHR ''e'', Lit CHR ''d''])
   \<and> console (analyzeLog fragmentRegExp env0 ''Build failed'' ''Editor.log'' (Some [ruleBad, ruleFailed]))
        = [(invalidRegexMessage ruleBad, ''SyntaxError: Invalid regular expression: /(failed/'')]
   \<and> report (analyzeLog fragmentRegExp env0 ''Build failed'' ''Editor.log'' (Some [ruleBad, ruleFailed]))
        = report (analyzeLog fragmentRegExp env0 ''Build failed'' ''Editor.log'' (Some [ruleFailed]))"
proof -
  have h1: "fragmentRegExp (sanitize (regex ruleBad)) = Inl ''SyntaxError: Invalid regular expression: /(failed/''"
    by (simp add: ruleBad_def mkRule_def fragmentRegExp_def isSyntaxCharacter_def)
  have h2: "fragmentRegExp (sanitize (regex ruleFailed))
        = Inr (searchAtoms [Lit CHR ''f'', Lit CHR ''a'', Lit CHR ''i'', Lit CHR ''l'', Lit CHR ''e'', Lit CHR ''d''])"
    by (simp add: ruleFailed_def mkRule_def fragmentRegExp_def isSyntaxCharacter_def)
  have h3: "[ruleBad, ruleFailed] = [ruleBad, ruleFailed] \<or> [ruleBad, ruleFailed] = [ruleFailed, ruleBad]"
    by simp
  from invalid_rule_logged_and_dropped [OF h1 h2 h3, of env0 "''Build failed''" "''Editor.log''"] h1 h2
  show ?thesis by blast
qed

section \<open>The keyword filter\<close>

lemma startsWith_iff: "startsWith s k \<longleftrightarrow> (\<exists>t. s = k @ t)"
  by (induction s k rule: startsWith.induct) auto

lemma includes_str_iff: "includes_str s k \<longleftrightarrow> (\<exists>p t. s = p @ k @ t)"
proof (induction s)
  case Nil
  then show ?case by auto
next
  case (Cons c cs)
  show ?case
  proof
    assume "includes_str (c # cs) k"
    then consider "startsWith (c # cs) k" | "includes_str cs k" by auto
    then show "\<exists>p t. c # cs = p @ k @ t"
    proof cases
      case 1
      then obtain t where "c # cs = k @ t" by (auto simp: startsWith_iff)
      then have "c # cs = [] @ k @ t" by simp
      then show ?thesis by blast
    next
      case 2
      with Cons obtain p t where "cs = p @ k @ t" by blast
      then have "c # cs = (c # p) @ k @ t" by simp
      then show ?thesis by blast
    qed
  next
    assume "\<exists>p t. c # cs = p @ k @ t"
    then obtain p t where eq: "c # cs = p @ k @ t" by blast
    show "includes_str (c # cs) k"
    proof (cases p)
      case Nil
      with eq have "startsWith (c # cs) k" by (auto simp: startsWith_iff)
      then show ?thesis by simp
    next
      case (Cons d p')
      with eq have "cs = p' @ k @ t" by simp
      with Cons.IH have "includes_str cs k" by blast
      then show ?thesis by simp
    qed
  qed
qed

lemma ruleMatches_keywordGate:
  assumes "ruleMatches mk lines i r"
  shows "keywordGate (lines ! i) r"
proof -
  from assms obtain cr where cr: "compileRule mk r = Inr cr" and f: "fires lines i cr"
    by (auto simp: ruleMatches_def split: sum.splits)
  from cr have "keywords_rule cr = keywords_rule r"
    by (auto simp: compileRule_def Let_def LogRule.defs split: sum.splits)
  with f show ?thesis
    by (auto simp: fires_def passesKeywordFilter_def hasKeyword_def keywordGate_def
        list_ex_iff includes_str_iff)
qed

lemma find_via_filter: "find P xs = (case filter P xs of [] \<Rightarrow> None | x # ys \<Rightarrow> Some x)"
  by (induction xs) auto

lemma find_sort_key_filter:
  assumes "\<And>x. P x \<Longrightarrow> G x"
  shows "find P (sort_key f (filter G xs)) = find P (sort_key f xs)"
proof -
  have "filter P (filter G xs) = filter P xs"
    using assms by (induction xs) auto
  then have "filter P (sort_key f (filter G xs)) = filter P (sort_key f xs)"
    by (simp add: filter_sort del: filter_filter)
  then show ?thesis
    unfolding find_via_filter by simp
qed

text \<open>
  Claim C2, as stated, fails: the keywords are compared as written and the pattern
  without regard to case, and nothing relates the two. The rule below has the keywords
  \<open>Failed\<close> and \<open>failed\<close> and the pattern \<open>failed\<close>; on the line
  \<open>BUILD FAILED\<close> no keyword occurs, the compiled pattern matches, and the scan
  reports nothing, while the same rule without keywords is reported.
\<close>

theorem keyword_filter_counterexample:
  "keywords_rule ruleFailed = [''Failed'', ''failed'']
   \<and> list_all (\<lambda>k. \<not> includes_str ''BUILD FAILED'' k) (keywords_rule ruleFailed)
   \<and> (case fragmentRegExp (sanitize (regex ruleFailed)) of
         Inl e \<Rightarrow> False | Inr re \<Rightarrow> re ''BUILD FAILED'' = Some ''FAILED'')
   \<and> issues (report (analyzeLog fragmentRegExp env0 ''BUILD FAILED'' ''Editor.log'' (Some [ruleFailed]))) = []
   \<and> map ruleId (issues (report (analyzeLog fragmentRegExp env0 ''BUILD FAILED'' ''Editor.log''
        (Some [ruleFailed\<lparr>keywords_rule := []\<rparr>])))) = [''7'']"
  by code_simp


text \<open>
  Claim C2, amended. The keyword filter is a gate of its own: a rule whose keyword list is
  not empty and has no keyword occurring in the line, as written, does not match that
  line whatever its pattern would find; at every line the scan gives what it gives with
  only the rules whose gate passes there.
\<close>

theorem keyword_filter_is_separate_gate:
  assumes "i < length (splitLines text)"
  shows "filter (\<lambda>x. lineNumber x = i + 1) (issues (report (analyzeLog mk env text fn (Some rules))))
       = filter (\<lambda>x. lineNumber x = i + 1)
           (issues (report (analyzeLog mk env text fn
              (Some (filter (keywordGate (splitLines text ! i)) rules)))))
     \<and> (\<forall>r. ruleMatches mk (splitLines text) i r \<longrightarrow> keywordGate (splitLines text ! i) r)"
proof -
  let ?lines = "splitLines text"
  let ?f = "\<lambda>r. - weight r"
  have "find (ruleMatches mk ?lines i) (sort_key ?f (filter (keywordGate (?lines ! i)) rules))
      = find (ruleMatches mk ?lines i) (sort_key ?f rules)"
    by (rule find_sort_key_filter) (rule ruleMatches_keywordGate)
  then have "scanLine (fst (compileRules mk (arraySort byWeightDesc rules) [])) ?lines i
      = scanLine (fst (compileRules mk
          (arraySort byWeightDesc (filter (keywordGate (?lines ! i)) rules)) [])) ?lines i"
    unfolding scanLine_via_find sortRules_sort_key by simp
  then show ?thesis
    unfolding issues_at_line [OF assms] using ruleMatches_keywordGate
    by (simp add: activeRules_def)
qed

theorem keyword_filter_is_separate_gate_witness:
  "0 < length (splitLines ''BUILD FAILED'')
   \<and> filter (keywordGate (splitLines ''BUILD FAILED'' ! 0)) [ruleFailed] = []
   \<and> filter (\<lambda>x. lineNumber x = 0 + 1)
       (issues (report (analyzeLog fragmentRegExp env0 ''BUILD FAILED'' ''Editor.log'' (Some [ruleFailed]))))
     = filter (\<lambda>x. lineNumber x = 0 + 1)
       (issues (report (analyzeLog fragmentRegExp env0 ''BUILD FAILED'' ''Editor.log'' (Some []))))
   \<and> \<not> ruleMatches fragmentRegExp (splitLines ''BUILD FAILED'') 0 ruleFailed"
proof -
  have h: "0 < length (splitLines ''BUILD FAILED'')" by code_simp
  have l: "splitLines ''BUILD FAILED'' ! 0 = ''BUILD FAILED''" by code_simp
  have k: "list_all (\<lambda>k. \<not> includes_str ''BUILD FAILED'' k) (keywords_rule ruleFailed)"
      "keywords_rule ruleFailed \<noteq> []"
    by code_simp+
  then have g: "\<not> keywordGate (splitLines ''BUILD FAILED'' ! 0) ruleFailed"
    unfolding l keywordGate_def includes_str_iff [symmetric] by (auto simp: list_all_iff)
  then have e: "filter (keywordGate (splitLines ''BUILD FAILED'' ! 0)) [ruleFailed] = []"
    by simp
  note t = keyword_filter_is_separate_gate [OF h, of fragmentRegExp env0 "''Editor.log''" "[ruleFailed]"]
  from t g have "\<not> ruleMatches fragmentRegExp (splitLines ''BUILD FAILED'') 0 ruleFailed"
    by blast
  moreover from t have "filter (\<lambda>x. lineNumber x = 0 + 1)
       (issues (report (analyzeLog fragmentRegExp env0 ''BUILD FAILED'' ''Editor.log'' (Some [ruleFailed]))))
     = filter (\<lambda>x. lineNumber x = 0 + 1)
       (issues (report (analyzeLog fragmentRegExp env0 ''BUILD FAILED'' ''Editor.log'' (Some []))))"
    unfolding e by blast
  ultimately show ?thesis using h e by blast
qed

section \<open>Sorted groups\<close>

lemma mset_insertBy: "mset (insertBy cmp x ys) = add_mset x (mset ys)"
  by (induction ys) auto

lemma mset_arraySort: "mset (arraySort cmp xs) = mset xs"
  by (induction xs) (simp_all add: arraySort_def mset_insertBy)

lemma set_insertBy: "set (insertBy cmp x ys) = insert x (set ys)"
  by (induction ys) auto

lemma sorted_wrt_insertBy:
  assumes "consistentComparator cmp" and "sorted_wrt (\<lambda>a b. cmp a b \<le> 0) ys"
  shows "sorted_wrt (\<lambda>a b. cmp a b \<le> 0) (insertBy cmp x ys)"
  using assms(2)
proof (induction ys)
  case Nil
  then show ?case by simp
next
  case (Cons y ys)
  from assms(1) have tot: "\<And>a b. cmp a b \<le> 0 \<or> cmp b a \<le> 0"
    and tr: "\<And>a b c. cmp a b \<le> 0 \<Longrightarrow> cmp b c \<le> 0 \<Longrightarrow> cmp a c \<le> 0"
    unfolding consistentComparator_def by blast+
  show ?case
  proof (cases "cmp x y \<le> 0")
    case True
    with Cons.prems tr show ?thesis by auto
  next
    case False
    with tot have "cmp y x \<le> 0" by blast
    with False Cons show ?thesis by (auto simp: set_insertBy)
  qed
qed

lemma sorted_wrt_arraySort:
  assumes "consistentComparator cmp"
  shows "sorted_wrt (\<lambda>a b. cmp a b \<le> 0) (arraySort cmp xs)"
proof (induction xs)
  case Nil
  then show ?case by (simp add: arraySort_def)
next
  case (Cons x xs)
  have "arraySort cmp (x # xs) = insertBy cmp x (arraySort cmp xs)"
    by (simp add: arraySort_def)
  with Cons sorted_wrt_insertBy [OF assms] show ?case by simp
qed

lemma arraySort_id_if_sorted:
  assumes "sorted_wrt (\<lambda>a b. cmp a b \<le> 0) xs"
  shows "arraySort cmp xs = xs"
  using assms
proof (induction xs)
  case Nil
  then show ?case by (simp add: arraySort_def)
next
  case (Cons x xs)
  then have "arraySort cmp xs = xs" by simp
  then have "arraySort cmp (x # xs) = insertBy cmp x xs"
    by (simp add: arraySort_def)
  also have "\<dots> = x # xs"
    using Cons.prems by (cases xs) auto
  finally show ?case .
qed

lemma consistent_severity_desc: "consistentComparator (compareGroups lc severity_desc)"
  unfolding consistentComparator_def compareGroups_def Let_def
  by (auto split: if_splits)

lemma consistent_codeUnitCompare: "consistentComparator codeUnitCompare"
  unfolding consistentComparator_def codeUnitCompare_def
  by (auto split: if_splits)

lemma consistent_name_asc:
  assumes "consistentComparator lc"
  shows "consistentComparator (compareGroups lc name_asc)"
proof -
  from assms have tot: "\<And>a b. lc a b \<le> 0 \<or> lc b a \<le> 0"
    and tr: "\<And>a b c. lc a b \<le> 0 \<Longrightarrow> lc b c \<le> 0 \<Longrightarrow> lc a c \<le> 0"
    unfolding consistentComparator_def by blast+
  show ?thesis
    unfolding consistentComparator_def compareGroups_def
    using tot tr by (simp, blast)
qed


text \<open>
  Claim C9. With the order \<open>severity_desc\<close>, of two groups in the result the later
  one has a smaller severity weight, or the same weight and no more members; so every
  CRITICAL group comes before every group of another severity and every ERROR group before
  every WARNING group, whatever their member counts, the weights being 3, 2 and 1; the
  result holds the same groups. With \<open>name_asc\<close>, for a name comparison that orders
  consistently, sorting the sorted groups again leaves them as they are.
\<close>

theorem severity_desc_and_name_asc_orders:
  "(\<forall>p q. p < q \<and> q < length (sortGroups lc severity_desc gs) \<longrightarrow>
       getSeverityWeight (g_severity (sortGroups lc severity_desc gs ! q))
         < getSeverityWeight (g_severity (sortGroups lc severity_desc gs ! p))
       \<or> (getSeverityWeight (g_severity (sortGroups lc severity_desc gs ! q))
           = getSeverityWeight (g_severity (sortGroups lc severity_desc gs ! p))
          \<and> length (g_issues (sortGroups lc severity_desc gs ! q))
              \<le> length (g_issues (sortGroups lc severity_desc gs ! p))))
   \<and> (\<forall>p q. p < length (sortGroups lc severity_desc gs) \<and> q < length (sortGroups lc severity_desc gs)
         \<and> (g_severity (sortGroups lc severity_desc gs ! p) = CRITICAL
               \<and> g_severity (sortGroups lc severity_desc gs ! q) \<noteq> CRITICAL
             \<or> g_severity (sortGroups lc severity_desc gs ! p) = ERROR
               \<and> g_severity (sortGroups lc severity_desc gs ! q) = WARNING)
         \<longrightarrow> p < q)
   \<and> mset (sortGroups lc severity_desc gs) = mset gs
   \<and> getSeverityWeight CRITICAL = 3 \<and> getSeverityWeight ERROR = 2 \<and> getSeverityWeight WARNING = 1
   \<and> (consistentComparator lc \<longrightarrow>
         sortGroups lc name_asc (sortGroups lc name_asc gs) = sortGroups lc name_asc gs)"
proof -
  let ?S = "sortGroups lc severity_desc gs"
  let ?w = "\<lambda>g. getSeverityWeight (g_severity g)"
  have sorted: "sorted_wrt (\<lambda>a b. compareGroups lc severity_desc a b \<le> 0) ?S"
    unfolding sortGroups_def by (rule sorted_wrt_arraySort [OF consistent_severity_desc])
  have key: "?w (?S ! q) < ?w (?S ! p)
       \<or> (?w (?S ! q) = ?w (?S ! p) \<and> length (g_issues (?S ! q)) \<le> length (g_issues (?S ! p)))"
    if "p < q" "q < length ?S" for p q
  proof -
    from sorted that have "compareGroups lc severity_desc (?S ! p) (?S ! q) \<le> 0"
      by (simp add: sorted_wrt_iff_nth_less)
    then show ?thesis
      by (auto simp: compareGroups_def Let_def split: if_splits)
  qed
  have order: "p < q"
    if "p < length ?S" "q < length ?S"
      "g_severity (?S ! p) = CRITICAL \<and> g_severity (?S ! q) \<noteq> CRITICAL
       \<or> g_severity (?S ! p) = ERROR \<and> g_severity (?S ! q) = WARNING" for p q
  proof (rule ccontr)
    assume "\<not> p < q"
    then consider "p = q" | "q < p" by linarith
    then show False
    proof cases
      case 1
      with that(3) show False by auto
    next
      case 2
      from key [OF 2 that(1)] have "?w (?S ! p) \<le> ?w (?S ! q)" by auto
      with that(3) show False
        by (cases "g_severity (?S ! q)") (auto simp: getSeverityWeight_def)
    qed
  qed
  have idem: "sortGroups lc name_asc (sortGroups lc name_asc gs) = sortGroups lc name_asc gs"
    if "consistentComparator lc"
    unfolding sortGroups_def
    by (rule arraySort_id_if_sorted) (rule sorted_wrt_arraySort [OF consistent_name_asc [OF that]])
  have "mset ?S = mset gs" by (simp add: sortGroups_def mset_arraySort)
  moreover have "getSeverityWeight CRITICAL = 3 \<and> getSeverityWeight ERROR = 2 \<and> getSeverityWeight WARNING = 1"
    by (simp add: getSeverityWeight_def)
  ultimately show ?thesis using key order idem by blast
qed

theorem severity_desc_and_name_asc_orders_witness:
  "consistentComparator codeUnitCompare
   \<and> map g_ruleId groupsC9 = [''w'', ''e'', ''c'', ''x'']
   \<and> map g_ruleId (sortGroups codeUnitCompare severity_desc groupsC9) = [''c'', ''x'', ''e'', ''w'']
   \<and> sortGroups codeUnitCompare name_asc (sortGroups codeUnitCompare name_asc groupsC9)
       = sortGroups codeUnitCompare name_asc groupsC9
   \<and> mset (sortGroups codeUnitCompare severity_desc groupsC9) = mset groupsC9"
proof -
  have c: "consistentComparator codeUnitCompare" by (rule consistent_codeUnitCompare)
  have a: "map g_ruleId groupsC9 = [''w'', ''e'', ''c'', ''x'']" by code_simp
  have b: "map g_ruleId (sortGroups codeUnitCompare severity_desc groupsC9) = [''c'', ''x'', ''e'', ''w'']"
    by code_simp
  from severity_desc_and_name_asc_orders [of codeUnitCompare groupsC9] a b c
  show ?thesis by blast
qed

end
